theory Spec2Isabelle
  imports Main "HOL-Library.AList"
begin

section \<open>The checker's view of go/types\<close>

text \<open>
  The unused-code checker of \<^verbatim>\<open>unused2/unused.go\<close> works on the objects and types of
  go/types and on the functions of the ssa package.  Both libraries are outside the
  repository; what the checker reads of them is modelled by the datatypes below.

  A \<^verbatim>\<open>*types.Package\<close> is identified by its path, \<^verbatim>\<open>nil\<close> is \<open>None\<close>.  Objects are
  compared by pointer in Go; here two objects are the same when all their components
  (among them the position \<open>pos\<close>) agree.  Types are finite terms: a named type carries
  its type name, its underlying type and its declared methods.
\<close>

type_synonym pkg = string
type_synonym pos = nat

datatype basic_kind = KBool | KInt | KFloat64 | KString | KUnsafePointer | KUntypedNil

datatype typename = NewTypeName (tn_name: string) (tn_pkg: "pkg option") (tn_pos: pos)

datatype gtype =
    TBasic basic_kind
  | TArray nat gtype
  | TSlice gtype
  | TPointer gtype
  | TChan gtype
  | TMap gtype gtype
  | TTuple "gvar list"
  | TSignature gsig
  | TInterface "gfunc list"
  | TStruct "gvar list"
  | TNamed typename gtype "gfunc list"
and gvar = NewVar (var_name: string) (var_pkg: "pkg option") (var_pos: pos)
                  (IsField: bool) (Anonymous: bool) (var_type: gtype)
and gsig = NewSignature (Recv: "gvar option") (Params: "gvar list") (Results: "gvar list")
and gfunc = NewFunc (func_name: string) (func_pkg: "pkg option") (func_pos: pos)
                    (func_scope: nat) (func_sig: gsig)

text \<open>A constant; \<open>const_scopes\<close> is the chain \<^verbatim>\<open>obj.Parent()\<close>, \<^verbatim>\<open>.Parent()\<close>, ... of the
  scopes around its declaration, innermost first.\<close>

datatype gconst = NewConst (const_name: string) (const_pkg: "pkg option") (const_pos: pos)
                           (const_type: gtype) (const_scopes: "nat list")

text \<open>\<^verbatim>\<open>types.Object\<close>: variables (fields, parameters, locals), functions, constants, type
  names, and the remaining kinds (package names, labels, builtins, nil).\<close>

datatype gobject =
    OVar gvar
  | OFunc gfunc
  | OConst gconst
  | OTypeName typename
  | OOther string "pkg option" pos

fun object_pkg :: "gobject \<Rightarrow> pkg option" where
  "object_pkg (OVar v) = var_pkg v"
| "object_pkg (OFunc f) = func_pkg f"
| "object_pkg (OConst c) = const_pkg c"
| "object_pkg (OTypeName n) = tn_pkg n"
| "object_pkg (OOther n p ps) = p"

fun object_pos :: "gobject \<Rightarrow> pos" where
  "object_pos (OVar v) = var_pos v"
| "object_pos (OFunc f) = func_pos f"
| "object_pos (OConst c) = const_pos c"
| "object_pos (OTypeName n) = tn_pos n"
| "object_pos (OOther n p ps) = ps"

fun object_name :: "gobject \<Rightarrow> string" where
  "object_name (OVar v) = var_name v"
| "object_name (OFunc f) = func_name f"
| "object_name (OConst c) = const_name c"
| "object_name (OTypeName n) = tn_name n"
| "object_name (OOther n p ps) = n"

text \<open>\<^verbatim>\<open>T.Underlying()\<close>: the underlying type of a named type, the type itself otherwise.\<close>

fun Underlying :: "gtype \<Rightarrow> gtype" where
  "Underlying (TNamed tn u ms) = u"
| "Underlying T = T"

text \<open>Modelled from the spec: \<^verbatim>\<open>lintdsl.Dereference\<close> is not among the sources.  The spec
  speaks of "dereferencing a pointer if needed"; the library function returns the element
  type when the underlying type of \<open>T\<close> is a pointer, and \<open>T\<close> otherwise (one step only).\<close>

definition Dereference :: "gtype \<Rightarrow> gtype" where
  "Dereference T = (case Underlying T of TPointer e \<Rightarrow> e | _ \<Rightarrow> T)"

text \<open>An \<^verbatim>\<open>*ssa.Function\<close>: \<open>fn_id\<close> stands for the pointer, \<open>fn_object\<close> is \<^verbatim>\<open>Object()\<close>
  (absent for synthetic functions), \<open>fn_pkg\<close> is the types package of \<^verbatim>\<open>fn.Pkg\<close>, and
  \<open>fn_syntax\<close> lists the identifiers that \<^verbatim>\<open>ast.Inspect\<close> meets in \<^verbatim>\<open>fn.Syntax()\<close>
  (\<open>None\<close> when there is no syntax).  Blocks and anonymous functions are looked up by
  \<open>fn_id\<close> in the program.\<close>

datatype ssa_function = Function (fn_id: nat) (fn_name: string) (fn_object: "gfunc option")
                                 (fn_pos: pos) (fn_pkg: "pkg option") (fn_Signature: gsig)
                                 (fn_syntax: "nat list option")

text \<open>A value of type \<^verbatim>\<open>interface{}\<close> as the graph stores it: \<^verbatim>\<open>nil\<close>, a
  \<^verbatim>\<open>types.Object\<close>, a \<^verbatim>\<open>types.Type\<close>, or an \<^verbatim>\<open>*ssa.Function\<close> (a nil pointer of that
  type is \<open>IFunction None\<close>, which is not the nil interface).\<close>

datatype iface = INil | IObject gobject | IType gtype | IFunction "ssa_function option"

section \<open>The relevance filter\<close>

lemma size_Dereference: "size (Dereference T) \<le> size T"
  by (cases T rule: Underlying.cases) (auto simp: Dereference_def split: gtype.splits)

lemma size_var_type: "size (var_type v) < size v"
  by (cases v) simp

lemma size_list_member: "x \<in> set xs \<Longrightarrow> size x \<le> size_list size xs"
  by (induction xs) auto

function isIrrelevant :: "iface \<Rightarrow> bool" where
  "isIrrelevant (IObject (OVar v)) = (\<not> IsField v \<and> isIrrelevant (IType (var_type v)))"
| "isIrrelevant (IObject (OFunc f)) = False"
| "isIrrelevant (IObject (OConst c)) = False"
| "isIrrelevant (IObject (OTypeName n)) = False"
| "isIrrelevant (IObject (OOther n p ps)) = False"
| "isIrrelevant (IType T) =
     (case Dereference T of
        TArray n e \<Rightarrow> isIrrelevant (IType e)
      | TSlice e \<Rightarrow> isIrrelevant (IType e)
      | TBasic k \<Rightarrow> True
      | TTuple vs \<Rightarrow> list_all (\<lambda>v. isIrrelevant (IType (var_type v))) vs
      | TSignature sg \<Rightarrow>
          (if Recv sg \<noteq> None then False
           else list_all (\<lambda>p. isIrrelevant (IObject (OVar p))) (Params sg)
              \<and> list_all (\<lambda>p. isIrrelevant (IObject (OVar p))) (Results sg))
      | TInterface ms \<Rightarrow> length ms = 0
      | _ \<Rightarrow> False)"
| "isIrrelevant (IFunction f) = False"
| "isIrrelevant INil = False"
  by pat_completeness auto
termination
proof (relation "measure (\<lambda>x. case x of IObject (OVar v) \<Rightarrow> size v | IType T \<Rightarrow> size T | _ \<Rightarrow> 0)",
    goal_cases)
  case 1
  show ?case by simp
next
  case (2 v)
  show ?case by (simp add: size_var_type)
next
  case (3 T n e)
  then show ?case using size_Dereference[of T] by simp
next
  case (4 T e)
  then show ?case using size_Dereference[of T] by simp
next
  case (5 T vs v)
  then show ?case
    using size_Dereference[of T] size_list_member[of v vs] size_var_type[of v] by simp
next
  case (6 T sg p)
  then show ?case
    using size_Dereference[of T] size_list_member[of p "Params sg"] by (cases sg) simp
next
  case (7 T sg p)
  then show ?case
    using size_Dereference[of T] size_list_member[of p "Results sg"] by (cases sg) simp
qed

section \<open>The NoCopy sentinel\<close>

definition isNoCopyType :: "gtype \<Rightarrow> bool" where
  "isNoCopyType T =
     (case Underlying T of
        TStruct fields \<Rightarrow>
          if length fields \<noteq> 0 then False
          else (case T of
                  TNamed tn u methods \<Rightarrow>
                    if length methods \<noteq> 1 then False
                    else let meth = methods ! 0 in
                      if func_name meth \<noteq> ''Lock'' then False
                      else if length (Params (func_sig meth)) \<noteq> 0
                            \<or> length (Results (func_sig meth)) \<noteq> 0 then False
                      else True
                | _ \<Rightarrow> False)
      | _ \<Rightarrow> False)"

section \<open>The inputs of the analysis\<close>

text \<open>\<^verbatim>\<open>obj.Exported()\<close>: the name starts with an upper-case letter (ASCII here).\<close>

definition IsExported :: "string \<Rightarrow> bool" where
  "IsExported name =
     (case name of [] \<Rightarrow> False | c # cs \<Rightarrow> c \<in> set ''ABCDEFGHIJKLMNOPQRSTUVWXYZ'')"

text \<open>A \<^verbatim>\<open>*types.Selection\<close> of a method set: the method and the path of field
  indices that leads to it.\<close>

datatype selection = Selection (sel_obj: gfunc) (sel_index: "nat list")

text \<open>The queries on types that the graph does not answer itself: the method-set cache
  \<^verbatim>\<open>g.msCache\<close> with \<^verbatim>\<open>MethodSet(T)\<close> and \<^verbatim>\<open>MethodSet(T).Lookup(pkg, name)\<close>, and
  \<^verbatim>\<open>g.implements\<close>, a method of the graph that is not among the sources (the spec: "for
  each pair where T implements I").  They are parameters of the model.\<close>

record typeutil =
  MethodSet :: "gtype \<Rightarrow> selection list"
  Lookup :: "gtype \<Rightarrow> pkg option \<Rightarrow> string \<Rightarrow> selection option"
  implements :: "gtype \<Rightarrow> gtype \<Rightarrow> bool"

text \<open>The values that a call or a return can name, by the number of the value (its
  identity): a function, a closure over the value \<open>Fn\<close>, a builtin, a phi with its
  edges, anything else.\<close>

datatype ssa_value =
    VFunction ssa_function
  | VMakeClosure nat
  | VBuiltin
  | VPhi "nat list"
  | VOther

text \<open>\<^verbatim>\<open>instr.Common()\<close> of a call: a call of the value \<^verbatim>\<open>c.Value\<close>, or the invocation of
  the interface method \<^verbatim>\<open>c.Method\<close>.\<close>

datatype call_common = CallValue nat | CallInvoke gfunc

text \<open>The instructions.  An instruction that is an \<^verbatim>\<open>ssa.Value\<close> carries its type first;
  then come the operands the analysis reads: the type of \<^verbatim>\<open>X\<close> and the field index, the
  call, the results, the asserted type, the function of a closure.  \<open>SsaValue\<close> stands
  for the value instructions without a rule of their own (Alloc, UnOp, BinOp, IndexAddr,
  Extract, Phi, MakeMap, Lookup, MakeSlice, MakeChan, Next, Index, Select,
  ChangeInterface), \<open>SsaPlain\<close> for the others without one (If, Jump, Panic, DebugRef,
  BlankStore, MapUpdate, Send, Go, Defer), \<open>SsaUnknown\<close> for a kind the switch does not
  list.\<close>

datatype instruction =
    SsaField gtype gtype nat
  | SsaFieldAddr gtype gtype nat
  | SsaStore
  | SsaCall gtype call_common
  | SsaReturn "nat list"
  | SsaChangeType gtype gtype
  | SsaMakeInterface gtype
  | SsaSlice gtype
  | SsaRunDefers
  | SsaConvert gtype gtype
  | SsaTypeAssert gtype gtype
  | SsaMakeClosure gtype ssa_function
  | SsaValue gtype
  | SsaRange
  | SsaPlain
  | SsaUnknown

text \<open>The type of an instruction that is a value and not a \<^verbatim>\<open>*ssa.Range\<close>.\<close>

fun value_type :: "instruction \<Rightarrow> gtype option" where
  "value_type (SsaField T X i) = Some T"
| "value_type (SsaFieldAddr T X i) = Some T"
| "value_type (SsaCall T c) = Some T"
| "value_type (SsaChangeType T X) = Some T"
| "value_type (SsaMakeInterface T) = Some T"
| "value_type (SsaSlice T) = Some T"
| "value_type (SsaConvert T X) = Some T"
| "value_type (SsaTypeAssert T A) = Some T"
| "value_type (SsaMakeClosure T f) = Some T"
| "value_type (SsaValue T) = Some T"
| "value_type instr = None"

datatype member =
    MNamedConst
  | MGlobal
  | MFunction ssa_function
  | MType "typename option" gtype
  | MUnknown

text \<open>What the graph reads of its \<^verbatim>\<open>*ssa.Package\<close> and of the program behind it: the types
  package \<^verbatim>\<open>pkg.Pkg\<close> and its name, \<^verbatim>\<open>pkg.Prog.FuncValue\<close>, the members, and for every
  function its blocks of instructions, its anonymous functions and the values by number.\<close>

record ssa_package =
  Pkg :: "pkg option"
  PkgName :: string
  FuncValue :: "gfunc \<Rightarrow> ssa_function option"
  Members :: "member list"
  Blocks :: "ssa_function \<Rightarrow> instruction list list"
  AnonFuncs :: "ssa_function \<Rightarrow> ssa_function list"
  Value :: "nat \<Rightarrow> ssa_value"

text \<open>\<^verbatim>\<open>*types.Info\<close>: the maps from identifiers (numbers) to the objects they define and
  use, and the type \<^verbatim>\<open>obj.Type()\<close> of a type name.\<close>

record types_info =
  Defs :: "(nat \<times> gobject option) list"
  Uses :: "(nat \<times> gobject) list"
  TypeNameType :: "typename \<Rightarrow> gtype"

record lint_job =
  InitialFunctions :: "ssa_function list"

record lint_pkg =
  SSA :: ssa_package
  Types :: "pkg option"
  TypesInfo :: types_info

type_synonym token_position = "string \<times> nat \<times> nat"

record lint_program =
  InitialPackages :: "lint_pkg list"
  Fset_Position :: "pos \<Rightarrow> token_position"

record Unused =
  Obj :: gobject
  Position :: token_position

section \<open>The graph\<close>

text \<open>
  A \<^verbatim>\<open>*Node\<close> is an index into \<open>heap\<close>, the store of all node structs of one graph
  (\<^verbatim>\<open>newNode\<close> allocates at the end).  The Go maps \<^verbatim>\<open>used\<close>, \<^verbatim>\<open>Nodes\<close>, \<^verbatim>\<open>TypeNodes\<close>
  and \<^verbatim>\<open>scopes\<close> are association lists with distinct keys; a \<^verbatim>\<open>range\<close> over a map visits
  the entries in some order, here the order of the list.  \<^verbatim>\<open>TypeNodes\<close> and
  \<^verbatim>\<open>seenTypes\<close> are keyed by type identity, which is equality of the type terms.
\<close>

record node =
  obj :: iface
  nid :: nat
  used :: "(nat \<times> string) list"
  seen :: bool
  quiet :: bool

record graph =
  job :: lint_job
  pkg :: ssa_package
  msCache :: typeutil
  scopes :: "(nat \<times> ssa_function) list"
  nodeCounter :: nat
  Root :: nat
  TypeNodes :: "(gtype \<times> nat) list"
  Nodes :: "(iface \<times> nat) list"
  seenTypes :: "gtype list"
  seenFns :: "ssa_function list"
  heap :: "node list"

text \<open>The ways the analysis can stop early.  All assertions of the source panic with the
  same message; the model names the assertion that failed.  \<open>NilDereference\<close>,
  \<open>TypeAssertion\<close> and \<open>IndexOutOfRange\<close> are the run-time panics of Go.  \<open>OutOfFuel\<close> is
  not a panic of the program: the walkers below recurse as long as the program does, and
  the model bounds the depth of the recursion by a number.\<close>

datatype panic =
    AssertNotNil
  | AssertFuncValue
  | AssertNoNewNode
  | AssertNumFields
  | Unreachable
  | NilDereference
  | TypeAssertion
  | IndexOutOfRange
  | OutOfFuel

text \<open>Sequencing of steps that may panic.\<close>

fun seq :: "('s \<Rightarrow> panic + 's) list \<Rightarrow> 's \<Rightarrow> panic + 's" where
  "seq [] s = Inr s"
| "seq (f # fs) s = (case f s of Inl e \<Rightarrow> Inl e | Inr s' \<Rightarrow> seq fs s')"

definition each :: "'a list \<Rightarrow> ('a \<Rightarrow> 's \<Rightarrow> panic + 's) \<Rightarrow> 's \<Rightarrow> panic + 's" where
  "each xs body = seq (map body xs)"

definition skip :: "'s \<Rightarrow> panic + 's" where
  "skip s = Inr s"

definition newNode :: "graph \<Rightarrow> iface \<Rightarrow> nat \<times> graph" where
  "newNode g ob =
     (let c = nodeCounter g + 1 in
      (length (heap g),
       g\<lparr>nodeCounter := c,
         heap := heap g @ [\<lparr>obj = ob, nid = c, used = [], seen = False, quiet = False\<rparr>]\<rparr>))"

text \<open>\<^verbatim>\<open>NewGraph\<close>; the method-set cache starts empty in Go and is given here with its
  answers.  \<^verbatim>\<open>Check\<close> sets \<open>job\<close> and \<open>scopes\<close> afterwards.\<close>

definition NewGraph :: "ssa_package \<Rightarrow> typeutil \<Rightarrow> graph" where
  "NewGraph p tu =
     (let g = \<lparr>job = \<lparr>InitialFunctions = []\<rparr>, pkg = p, msCache = tu, scopes = [],
               nodeCounter = 0, Root = 0, TypeNodes = [], Nodes = [],
               seenTypes = [], seenFns = [], heap = []\<rparr>;
          (r, g') = newNode g INil
      in g'\<lparr>Root := r\<rparr>)"

definition nodeMaybe :: "graph \<Rightarrow> iface \<Rightarrow> nat option" where
  "nodeMaybe g ob =
     (case ob of
        IType t \<Rightarrow> map_of (TypeNodes g) t
      | _ \<Rightarrow> map_of (Nodes g) ob)"

text \<open>\<^verbatim>\<open>Graph.node\<close>: the node of \<open>ob\<close> and whether it is new.\<close>

definition node :: "graph \<Rightarrow> iface \<Rightarrow> (nat \<times> bool) \<times> graph" where
  "node g ob =
     (case ob of
        IType t \<Rightarrow>
          (case map_of (TypeNodes g) t of
             Some v \<Rightarrow> ((v, False), g)
           | None \<Rightarrow>
               (let (n, g') = newNode g ob
                in ((n, True), g'\<lparr>TypeNodes := TypeNodes g' @ [(t, n)]\<rparr>)))
      | _ \<Rightarrow>
          (case map_of (Nodes g) ob of
             Some n \<Rightarrow> ((n, False), g)
           | None \<Rightarrow>
               (let (n, g') = newNode g ob
                in ((n, True), g'\<lparr>Nodes := Nodes g' @ [(ob, n)]\<rparr>))))"

text \<open>\<^verbatim>\<open>Node.use\<close> on the node struct \<open>n\<close>; the target is never nil, it comes from
  \<^verbatim>\<open>Graph.node\<close>.  The map \<^verbatim>\<open>used\<close> has one entry per target.\<close>

definition Node_use :: "node \<Rightarrow> nat \<Rightarrow> string \<Rightarrow> bool \<times> node" where
  "Node_use n target reason =
     (if map_of (used n) target = Some reason then (False, n)
      else (True, n\<lparr>used := AList.update target reason (used n)\<rparr>))"

text \<open>An object of another package: \<^verbatim>\<open>obj.Pkg() != nil && obj.Pkg() != g.pkg.Pkg\<close>.\<close>

definition foreign :: "graph \<Rightarrow> iface \<Rightarrow> bool" where
  "foreign g x =
     (case x of
        IObject ob \<Rightarrow> object_pkg ob \<noteq> None \<and> object_pkg ob \<noteq> Pkg (pkg g)
      | _ \<Rightarrow> False)"

definition see :: "iface \<Rightarrow> graph \<Rightarrow> panic + graph" where
  "see ob g =
     (if isIrrelevant ob then Inr g
      else if ob = INil then Inl AssertNotNil
      else if foreign g ob then Inr g
      else Inr (snd (node g ob)))"

text \<open>A \<^verbatim>\<open>*types.Func\<close> for which \<^verbatim>\<open>FuncValue\<close> is not nil.\<close>

definition hasFuncValue :: "graph \<Rightarrow> iface \<Rightarrow> bool" where
  "hasFuncValue g x =
     (case x of IObject (OFunc f) \<Rightarrow> FuncValue (pkg g) f \<noteq> None | _ \<Rightarrow> False)"

definition use :: "iface \<Rightarrow> iface \<Rightarrow> string \<Rightarrow> graph \<Rightarrow> panic + graph" where
  "use usedx by reason g =
     (if isIrrelevant usedx then Inr g
      else if usedx = INil then Inl AssertNotNil
      else if hasFuncValue g usedx then Inl AssertFuncValue
      else if hasFuncValue g by then Inl AssertFuncValue
      else if foreign g usedx then Inr g
      else if foreign g by then Inr g
      else
        (let ((usedNode, new), g1) = node g usedx in
         if new then Inl AssertNoNewNode
         else if by = INil then
           Inr (g1\<lparr>heap := (heap g1)[Root g1 :=
                   snd (Node_use (heap g1 ! Root g1) usedNode reason)]\<rparr>)
         else
           (let ((byNode, new'), g2) = node g1 by in
            if new' then Inl AssertNoNewNode
            else Inr (g2\<lparr>heap := (heap g2)[byNode :=
                        snd (Node_use (heap g2 ! byNode) usedNode reason)]\<rparr>))))"

definition seeAndUse :: "iface \<Rightarrow> iface \<Rightarrow> string \<Rightarrow> graph \<Rightarrow> panic + graph" where
  "seeAndUse usedx by reason = seq [see usedx, use usedx by reason]"

section \<open>The walkers\<close>

lemma size_Underlying: "size (Underlying T) \<le> size T"
  by (cases T rule: Underlying.cases) simp_all

text \<open>The closure \<^verbatim>\<open>hasExportedField\<close> of \<^verbatim>\<open>Graph.typ\<close> with its map \<^verbatim>\<open>seen\<close> of the
  structs already visited; the second function is its loop over the fields.\<close>

function hasExportedField :: "gtype list \<Rightarrow> gtype \<Rightarrow> bool \<times> gtype list"
  and hasExportedField_loop :: "gtype list \<Rightarrow> gvar list \<Rightarrow> bool \<times> gtype list" where
  "hasExportedField seenStructs T =
     (case Underlying (Dereference T) of
        TStruct fs \<Rightarrow>
          if TStruct fs \<in> set seenStructs then (False, seenStructs)
          else hasExportedField_loop (TStruct fs # seenStructs) fs
      | _ \<Rightarrow> (False, seenStructs))"
| "hasExportedField_loop seenStructs [] = (False, seenStructs)"
| "hasExportedField_loop seenStructs (field # rest) =
     (if IsExported (var_name field) then (True, seenStructs)
      else if Anonymous field then
        (case hasExportedField seenStructs (var_type field) of
           (True, seenStructs') \<Rightarrow> (True, seenStructs')
         | (False, seenStructs') \<Rightarrow> hasExportedField_loop seenStructs' rest)
      else hasExportedField_loop seenStructs rest)"
  by pat_completeness auto
termination hasExportedField
proof (relation "measure (\<lambda>x. case x of Inl (s, T) \<Rightarrow> 2 * size T + 1
                                       | Inr (s, fs) \<Rightarrow> 2 * size_list size fs)", goal_cases)
  case 1
  show ?case by simp
next
  case (2 seenStructs T fs)
  then show ?case
    using size_Underlying[of "Dereference T"] size_Dereference[of T] by simp
next
  case (3 seenStructs field rest)
  then show ?case using size_var_type[of field] by simp
next
  case (4 seenStructs field rest x y)
  then show ?case by simp
next
  case (5 seenStructs field rest)
  then show ?case by simp
qed

text \<open>The edges from a struct \<open>t\<close> to its field \<open>f\<close> (rules 2701, 4946, 6090, 8728).\<close>

definition structField :: "gtype \<Rightarrow> gvar \<Rightarrow> graph \<Rightarrow> panic + graph" where
  "structField t f =
     seq [see (IObject (OVar f)),
          (if IsExported (var_name f) then
             use (IObject (OVar f)) (IType t) ''exported struct field''
           else if isNoCopyType (var_type f) then
             use (IObject (OVar f)) (IType t) ''NoCopy sentinel''
           else skip),
          (if Anonymous f then
             seq [(\<lambda>g. if list_ex (\<lambda>s. IsExported (func_name (sel_obj s)))
                                (MethodSet (msCache g) (var_type f))
                        then use (IObject (OVar f)) (IType t) ''extends exported method set'' g
                        else Inr g),
                  (if fst (hasExportedField [] (var_type f)) then
                     use (IObject (OVar f)) (IType t) ''extends exported fields''
                   else skip)]
           else skip)]"

text \<open>Rule 1323: the function uses the field it accesses; \<open>st\<close> is the type that the
  source asserts to be a struct.\<close>

definition fieldAccess :: "ssa_function \<Rightarrow> gtype \<Rightarrow> nat \<Rightarrow> graph \<Rightarrow> panic + graph" where
  "fieldAccess fn st i =
     (case st of
        TStruct fs \<Rightarrow>
          if i < length fs then
            seeAndUse (IObject (OVar (fs ! i))) (IFunction (Some fn)) ''field access''
          else (\<lambda>g. Inl IndexOutOfRange)
      | _ \<Rightarrow> (\<lambda>g. Inl TypeAssertion))"

text \<open>Rule 6885: the fields of two structs that are converted into each other use each
  other.  \<open>T\<close> is the type of the conversion, \<open>X\<close> the type of its operand.\<close>

definition structConversion :: "gtype \<Rightarrow> gtype \<Rightarrow> graph \<Rightarrow> panic + graph" where
  "structConversion T X =
     (case Underlying (Dereference T) of
        TStruct s1 \<Rightarrow>
          (case Underlying (Dereference X) of
             TStruct s2 \<Rightarrow>
               if length s1 \<noteq> length s2 then (\<lambda>g. Inl AssertNumFields)
               else each [0..<length s1]
                      (\<lambda>i. seq [see (IObject (OVar (s1 ! i))),
                                see (IObject (OVar (s2 ! i))),
                                seeAndUse (IObject (OVar (s1 ! i))) (IObject (OVar (s2 ! i)))
                                  ''struct conversion'',
                                seeAndUse (IObject (OVar (s2 ! i))) (IObject (OVar (s1 ! i)))
                                  ''struct conversion''])
           | _ \<Rightarrow> skip)
      | _ \<Rightarrow> skip)"

text \<open>Rule 4029, one direction: \<open>A\<close> is unsafe.Pointer and \<open>B\<close> a pointer to a struct.\<close>

definition unsafeConversion :: "ssa_function \<Rightarrow> gtype \<Rightarrow> gtype \<Rightarrow> graph \<Rightarrow> panic + graph" where
  "unsafeConversion fn A B =
     (case A of
        TBasic KUnsafePointer \<Rightarrow>
          (case Underlying B of
             TPointer e \<Rightarrow>
               (case Underlying e of
                  TStruct fs \<Rightarrow>
                    each fs (\<lambda>f. seeAndUse (IObject (OVar f)) (IFunction (Some fn))
                                    ''unsafe conversion'')
                | _ \<Rightarrow> skip)
           | _ \<Rightarrow> skip)
      | _ \<Rightarrow> skip)"

text \<open>The closure \<^verbatim>\<open>handleReturn\<close> of a return instruction (rule 8103); the state is
  its map \<^verbatim>\<open>seen\<close> of values together with the graph.\<close>

fun handleReturn :: "nat \<Rightarrow> ssa_function \<Rightarrow> nat \<Rightarrow> nat list \<times> graph \<Rightarrow> panic + nat list \<times> graph" where
  "handleReturn 0 fn v = (\<lambda>s. Inl OutOfFuel)"
| "handleReturn (Suc n) fn v =
     (\<lambda>s. if v \<in> set (fst s) then Inr s
          else
            (case Value (pkg (snd s)) v of
               VFunction f \<Rightarrow>
                 (case seeAndUse (IFunction (Some f)) (IFunction (Some fn))
                         ''returning function'' (snd s) of
                    Inl e \<Rightarrow> Inl e
                  | Inr g' \<Rightarrow> Inr (v # fst s, g'))
             | VPhi es \<Rightarrow> each es (\<lambda>e. handleReturn n fn e) (v # fst s, snd s)
             | _ \<Rightarrow> Inr (v # fst s, snd s)))"

text \<open>The body of the loop of \<^verbatim>\<open>Graph.instructions\<close> over the instructions of a block:
  what the walk does for one instruction \<open>instr\<close> of the function \<open>fn\<close>.  The walkers it
  calls are parameters: \<open>typ'\<close> is \<^verbatim>\<open>g.typ\<close>, \<open>instructions'\<close> is \<^verbatim>\<open>g.instructions\<close>,
  \<open>useCall'\<close> and \<open>handleReturn'\<close> are the two closures.\<close>

definition instruction_step ::
  "(gtype \<Rightarrow> graph \<Rightarrow> panic + graph) \<Rightarrow> (ssa_function \<Rightarrow> graph \<Rightarrow> panic + graph)
   \<Rightarrow> (nat \<Rightarrow> nat list \<times> graph \<Rightarrow> panic + nat list \<times> graph)
   \<Rightarrow> (nat \<Rightarrow> nat list \<times> graph \<Rightarrow> panic + nat list \<times> graph)
   \<Rightarrow> ssa_function \<Rightarrow> instruction \<Rightarrow> graph \<Rightarrow> panic + graph" where
  "instruction_step typ' instructions' useCall' handleReturn' fn instr =
     seq [(case value_type instr of
             None \<Rightarrow> skip
           | Some T \<Rightarrow>
               seq [seeAndUse (IType T) (IFunction (Some fn)) ''instruction'', typ' T]),
          (case instr of
             SsaField T X i \<Rightarrow> fieldAccess fn (Underlying X) i
           | SsaFieldAddr T X i \<Rightarrow> fieldAccess fn (Underlying (Dereference X)) i
           | SsaCall T c \<Rightarrow>
               (case c of
                  CallValue v \<Rightarrow>
                    (\<lambda>g. case useCall' v ([], g) of
                           Inl e \<Rightarrow> Inl e
                         | Inr s \<Rightarrow> Inr (snd s))
                | CallInvoke m \<Rightarrow>
                    seeAndUse (IObject (OFunc m)) (IFunction (Some fn)) ''interface call'')
           | SsaReturn rs \<Rightarrow>
               (\<lambda>g. case each rs handleReturn' ([], g) of
                      Inl e \<Rightarrow> Inl e
                    | Inr s \<Rightarrow> Inr (snd s))
           | SsaChangeType T X \<Rightarrow>
               seq [seeAndUse (IType T) (IFunction (Some fn)) ''conversion'',
                    typ' T,
                    structConversion T X]
           | SsaConvert T X \<Rightarrow>
               seq [unsafeConversion fn T X, unsafeConversion fn X T]
           | SsaTypeAssert T A \<Rightarrow>
               seq [seeAndUse (IType A) (IFunction (Some fn)) ''type assert'', typ' A]
           | SsaMakeClosure T v \<Rightarrow>
               seq [seeAndUse (IFunction (Some v)) (IFunction (Some fn)) ''make closure'',
                    (case fn_object v of
                       None \<Rightarrow> skip
                     | Some ob \<Rightarrow>
                         (\<lambda>g. if FuncValue (pkg g) ob \<noteq> Some v
                              then instructions' v g else Inr g))]
           | SsaUnknown \<Rightarrow> (\<lambda>g. Inl Unreachable)
           | _ \<Rightarrow> skip)]"

text \<open>\<^verbatim>\<open>Graph.typ\<close>, \<^verbatim>\<open>Graph.variable\<close>, \<^verbatim>\<open>Graph.signature\<close>, \<^verbatim>\<open>Graph.function\<close>,
  \<^verbatim>\<open>Graph.instructions\<close> and the closure \<^verbatim>\<open>useCall\<close> of a call instruction call each
  other.  The first argument bounds the depth of the calls.\<close>

fun Graph_typ :: "nat \<Rightarrow> gtype \<Rightarrow> graph \<Rightarrow> panic + graph"
  and variable :: "nat \<Rightarrow> gvar \<Rightarrow> graph \<Rightarrow> panic + graph"
  and signature :: "nat \<Rightarrow> gsig \<Rightarrow> graph \<Rightarrow> panic + graph"
  and Graph_function :: "nat \<Rightarrow> ssa_function \<Rightarrow> graph \<Rightarrow> panic + graph"
  and instructions :: "nat \<Rightarrow> ssa_function \<Rightarrow> graph \<Rightarrow> panic + graph"
  and useCall :: "nat \<Rightarrow> ssa_function \<Rightarrow> nat \<Rightarrow> nat list \<times> graph \<Rightarrow> panic + nat list \<times> graph"
where
  "Graph_typ 0 t = (\<lambda>g. Inl OutOfFuel)"
| "Graph_typ (Suc n) t =
     (\<lambda>g. if t \<in> set (seenTypes g) then Inr g
          else if (case t of
                     TNamed tn u ms \<Rightarrow> tn_pkg tn \<noteq> None \<and> tn_pkg tn \<noteq> Pkg (pkg g)
                   | _ \<Rightarrow> False) then Inr g
          else if isIrrelevant (IType t) then Inr (g\<lparr>seenTypes := t # seenTypes g\<rparr>)
          else
            seq [see (IType t),
                 (case t of
                    TStruct fs \<Rightarrow> each fs (\<lambda>f. seq [structField t f, variable n f])
                  | TBasic k \<Rightarrow> skip
                  | TNamed tn u ms \<Rightarrow>
                      seq [seeAndUse (IType u) (IType t) ''underlying type'',
                           seeAndUse (IObject (OTypeName tn)) (IType t) ''type name'',
                           seeAndUse (IType t) (IObject (OTypeName tn)) ''named type'',
                           each ms
                             (\<lambda>m g. case FuncValue (pkg g) m of
                                      None \<Rightarrow>
                                        seq [see (IFunction None), (\<lambda>g. Inl NilDereference)] g
                                    | Some meth \<Rightarrow>
                                        seq [see (IFunction (Some meth)),
                                             (if (case fn_object meth of
                                                    None \<Rightarrow> False
                                                  | Some fo \<Rightarrow> IsExported (func_name fo))
                                              then use (IFunction (Some meth)) (IType t)
                                                     ''exported method''
                                              else skip),
                                             Graph_function n meth] g),
                           Graph_typ n u]
                  | TSlice e \<Rightarrow>
                      seq [seeAndUse (IType e) (IType t) ''element type'', Graph_typ n e]
                  | TMap k e \<Rightarrow>
                      seq [seeAndUse (IType e) (IType t) ''element type'',
                           seeAndUse (IType k) (IType t) ''key type'',
                           Graph_typ n e, Graph_typ n k]
                  | TSignature sg \<Rightarrow> signature n sg
                  | TInterface ms \<Rightarrow>
                      each ms
                        (\<lambda>m. seq [seeAndUse (IObject (OFunc m)) (IType t) ''interface method'',
                                  seeAndUse (IType (TSignature (func_sig m))) (IObject (OFunc m))
                                    ''signature'',
                                  signature n (func_sig m)])
                  | TArray l e \<Rightarrow>
                      seq [seeAndUse (IType e) (IType t) ''element type'', Graph_typ n e]
                  | TPointer e \<Rightarrow>
                      seq [seeAndUse (IType e) (IType t) ''element type'', Graph_typ n e]
                  | TChan e \<Rightarrow>
                      seq [seeAndUse (IType e) (IType t) ''element type'', Graph_typ n e]
                  | TTuple vs \<Rightarrow>
                      each vs
                        (\<lambda>v. seq [seeAndUse (IObject (OVar v)) (IType t) ''tuple element'',
                                  variable n v]))]
              (g\<lparr>seenTypes := t # seenTypes g\<rparr>))"
| "variable 0 v = (\<lambda>g. Inl OutOfFuel)"
| "variable (Suc n) v =
     seq [seeAndUse (IType (var_type v)) (IObject (OVar v)) ''variable type'',
          Graph_typ n (var_type v)]"
| "signature 0 sg = (\<lambda>g. Inl OutOfFuel)"
| "signature (Suc n) sg =
     seq [(case Recv sg of
             None \<Rightarrow> skip
           | Some r \<Rightarrow>
               seq [seeAndUse (IObject (OVar r)) (IType (TSignature sg)) ''receiver'',
                    variable n r]),
          each (Params sg)
            (\<lambda>param. seq [seeAndUse (IObject (OVar param)) (IType (TSignature sg))
                            ''function argument'',
                          variable n param]),
          each (Results sg)
            (\<lambda>param. seq [seeAndUse (IObject (OVar param)) (IType (TSignature sg))
                            ''function result'',
                          variable n param])]"
| "Graph_function 0 fn = (\<lambda>g. Inl OutOfFuel)"
| "Graph_function (Suc n) fn =
     seq [seeAndUse (IType (TSignature (fn_Signature fn))) (IFunction (Some fn))
            ''function signature'',
          signature n (fn_Signature fn),
          instructions n fn,
          (\<lambda>g. each (AnonFuncs (pkg g) fn)
                 (\<lambda>anon. seq [seeAndUse (IFunction (Some anon)) (IFunction (Some fn))
                                ''anonymous function'',
                              Graph_function n anon]) g)]"
| "instructions 0 fn = (\<lambda>g. Inl OutOfFuel)"
| "instructions (Suc n) fn =
     (\<lambda>g. if fn \<in> set (seenFns g) then Inr g
          else
            each (concat (Blocks (pkg g) fn))
              (instruction_step (\<lambda>T. Graph_typ n T) (\<lambda>f. instructions n f)
                 (\<lambda>v. useCall n fn v) (\<lambda>v. handleReturn n fn v) fn)
              (g\<lparr>seenFns := fn # seenFns g\<rparr>))"
| "useCall 0 fn v = (\<lambda>s. Inl OutOfFuel)"
| "useCall (Suc n) fn v =
     (\<lambda>s. if v \<in> set (fst s) then Inr s
          else
            (case Value (pkg (snd s)) v of
               VFunction f \<Rightarrow>
                 (case seq [seeAndUse (IFunction (Some f)) (IFunction (Some fn)) ''function call'',
                            (case fn_object f of
                               None \<Rightarrow> skip
                             | Some ob \<Rightarrow>
                                 (\<lambda>g. if FuncValue (pkg g) ob \<noteq> Some f
                                      then instructions n f g else Inr g))] (snd s) of
                    Inl e \<Rightarrow> Inl e
                  | Inr g' \<Rightarrow> Inr (v # fst s, g'))
             | VMakeClosure w \<Rightarrow> useCall n fn w (v # fst s, snd s)
             | VBuiltin \<Rightarrow> Inr (v # fst s, snd s)
             | VPhi es \<Rightarrow> each es (\<lambda>e. useCall n fn e) (v # fst s, snd s)
             | VOther \<Rightarrow> Inr (v # fst s, snd s)))"


section \<open>The entry points\<close>

text \<open>The closure \<^verbatim>\<open>surroundingFunc\<close> of \<^verbatim>\<open>Graph.entry\<close>, on the chain of scopes around
  an object: the function of the innermost scope that belongs to one.\<close>

fun surroundingFunc :: "(nat \<times> ssa_function) list \<Rightarrow> nat list \<Rightarrow> ssa_function option" where
  "surroundingFunc sc [] = None"
| "surroundingFunc sc (scope # parents) =
     (case map_of sc scope of
        Some fn \<Rightarrow> Some fn
      | None \<Rightarrow> surroundingFunc sc parents)"

text \<open>The loop of \<^verbatim>\<open>Graph.entry\<close> over the embedding path of a method that helps to
  implement an interface; \<open>base\<close> is the struct at hand (its fields), nil after a type
  that is no struct.\<close>

fun helpsImplement :: "gvar list option \<Rightarrow> nat list \<Rightarrow> graph \<Rightarrow> panic + graph" where
  "helpsImplement base [] = skip"
| "helpsImplement base (idx # path) =
     (case base of
        None \<Rightarrow> (\<lambda>g. Inl NilDereference)
      | Some fs \<Rightarrow>
          if idx < length fs then
            seq [seeAndUse (IObject (OVar (fs ! idx))) (IType (TStruct fs)) ''helps implement'',
                 helpsImplement
                   (case Underlying (Dereference (var_type (fs ! idx))) of
                      TStruct fs' \<Rightarrow> Some fs'
                    | _ \<Rightarrow> None)
                   path]
          else (\<lambda>g. Inl IndexOutOfRange))"

fun isInterface :: "gtype \<Rightarrow> bool" where
  "isInterface (TInterface ms) = True"
| "isInterface T = False"

fun NumMethods :: "gtype \<Rightarrow> gfunc list" where
  "NumMethods (TInterface ms) = ms"
| "NumMethods T = []"

text \<open>The body of the innermost loop of the last part of \<^verbatim>\<open>Graph.entry\<close>: the method \<open>m\<close>
  of the interface \<open>iface\<close>, which the type \<open>t\<close> implements.\<close>

definition implementsMethod :: "gtype \<Rightarrow> gtype \<Rightarrow> gfunc \<Rightarrow> graph \<Rightarrow> panic + graph" where
  "implementsMethod t iface m =
     (\<lambda>g. case Lookup (msCache g) t (Pkg (pkg g)) (func_name m) of
            None \<Rightarrow> Inl NilDereference
          | Some sel \<Rightarrow>
              seq [(if length (sel_index sel) > 1 then
                      (case Underlying (Dereference t) of
                         TStruct fs \<Rightarrow> helpsImplement (Some fs) (butlast (sel_index sel))
                       | _ \<Rightarrow> (\<lambda>g. Inl TypeAssertion))
                    else skip),
                   (\<lambda>g. case FuncValue (pkg g) (sel_obj sel) of
                          Some fn \<Rightarrow>
                            seeAndUse (IFunction (Some fn)) (IType iface) ''implements'' g
                        | None \<Rightarrow>
                            seeAndUse (IObject (OFunc (sel_obj sel))) (IType iface)
                              ''implements'' g)] g)"

definition entry :: "nat \<Rightarrow> types_info \<Rightarrow> graph \<Rightarrow> panic + graph" where
  "entry n tinfo =
     (let handledConsts = ([] :: nat list) in
      seq [each (map snd (Defs tinfo))
             (\<lambda>ob. case ob of
                     Some (OTypeName tn) \<Rightarrow>
                       seq [see (IObject (OTypeName tn)), Graph_typ n (TypeNameType tinfo tn)]
                   | Some (OConst c) \<Rightarrow>
                       seq [see (IObject (OConst c)),
                            (\<lambda>g. if surroundingFunc (scopes g) (const_scopes c) = None
                                    \<and> IsExported (const_name c)
                                 then use (IObject (OConst c)) INil ''exported constant'' g
                                 else Inr g),
                            Graph_typ n (const_type c),
                            seeAndUse (IType (const_type c)) (IObject (OConst c))
                              ''constant type'']
                   | _ \<Rightarrow> skip),
           (\<lambda>g. each (InitialFunctions (job g))
                  (\<lambda>fn g. if fn_pkg fn = None \<or> fn_pkg fn \<noteq> Pkg (pkg g) then Inr g
                          else
                            seq [see (IFunction (Some fn)),
                                 (case fn_syntax fn of
                                    None \<Rightarrow> skip
                                  | Some idents \<Rightarrow>
                                      each idents
                                        (\<lambda>ident. case map_of (Uses tinfo) ident of
                                                   Some (OConst c) \<Rightarrow>
                                                     seeAndUse (IObject (OConst c))
                                                       (IFunction (Some fn)) ''used constant''
                                                 | _ \<Rightarrow> skip))] g) g),
           each (Uses tinfo)
             (\<lambda>u. case snd u of
                    OConst c \<Rightarrow>
                      if fst u \<in> set handledConsts then skip
                      else seeAndUse (IObject (OConst c)) INil ''used constant''
                  | _ \<Rightarrow> skip),
           (\<lambda>g. each (Members (pkg g))
                  (\<lambda>m. case m of
                         MNamedConst \<Rightarrow> skip
                       | MGlobal \<Rightarrow> skip
                       | MFunction f \<Rightarrow>
                           seq [see (IFunction (Some f)),
                                (if fn_name f = ''init'' then
                                   use (IFunction (Some f)) INil ''init function''
                                 else skip),
                                (if (case fn_object f of
                                       None \<Rightarrow> False
                                     | Some fo \<Rightarrow> IsExported (func_name fo)) then
                                   use (IFunction (Some f)) INil ''exported top-level function''
                                 else skip),
                                (\<lambda>g. if fn_name f = ''main'' \<and> PkgName (pkg g) = ''main''
                                     then use (IFunction (Some f)) INil ''main function'' g
                                     else Inr g),
                                Graph_function n f]
                       | MType ob T \<Rightarrow>
                           seq [(case ob of
                                   None \<Rightarrow> skip
                                 | Some tn \<Rightarrow>
                                     seq [see (IObject (OTypeName tn)),
                                          (if IsExported (tn_name tn) then
                                             use (IObject (OTypeName tn)) INil
                                               ''exported top-level type''
                                           else skip)]),
                                Graph_typ n T]
                       | MUnknown \<Rightarrow> (\<lambda>g. Inl Unreachable)) g),
           (\<lambda>g. each (filter isInterface (seenTypes g))
                  (\<lambda>iface.
                     each (filter (\<lambda>t. \<not> isInterface t \<and> \<not> isInterface (Underlying t))
                             (seenTypes g))
                       (\<lambda>t g. if implements (msCache g) t iface then
                                each (NumMethods iface) (\<lambda>m. implementsMethod t iface m) g
                              else Inr g)) g)])"


section \<open>Coloring\<close>

text \<open>\<^verbatim>\<open>Graph.color\<close>: mark the node, then color every target of its \<^verbatim>\<open>used\<close> map.  The
  second function is the \<^verbatim>\<open>range\<close> loop; the graph it passes on is the one the previous
  iteration left.  An index outside the heap has no pointer in Go; the model leaves the
  graph as it is there.\<close>

definition unseen :: "graph \<Rightarrow> nat" where
  "unseen g = length (filter (\<lambda>n. \<not> seen n) (heap g))"

function color :: "graph \<Rightarrow> nat \<Rightarrow> graph"
  and color_range :: "graph \<Rightarrow> nat list \<Rightarrow> graph" where
  "color g root =
     (if root < length (heap g) then
        (if seen (heap g ! root) then g
         else color_range (g\<lparr>heap := (heap g)[root := (heap g ! root)\<lparr>seen := True\<rparr>]\<rparr>)
                (map fst (used (heap g ! root))))
      else g)"
| "color_range g [] = g"
| "color_range g (other # rest) = color_range (color g other) rest"
  by pat_completeness auto

lemma unseen_mark:
  "p < length h \<Longrightarrow> \<not> seen (h ! p) \<Longrightarrow>
   length (filter (\<lambda>n. \<not> seen n) (h[p := (h ! p)\<lparr>seen := True\<rparr>])) < length (filter (\<lambda>n. \<not> seen n) h)"
proof (induction h arbitrary: p)
  case Nil
  then show ?case by simp
next
  case (Cons a h)
  then show ?case by (cases p) auto
qed

lemma color_unseen_dom:
  "color_color_range_dom (Inl (g, root)) \<Longrightarrow> unseen (color g root) \<le> unseen g"
  "color_color_range_dom (Inr (g, ps)) \<Longrightarrow> unseen (color_range g ps) \<le> unseen g"
proof (induction g root and g ps rule: color_color_range.pinduct)
  case (1 g root)
  then show ?case
    using unseen_mark[of root "heap g"]
    by (auto simp: color.psimps unseen_def)
next
  case (2 g)
  then show ?case by (simp add: color_range.psimps)
next
  case (3 g other rest)
  then show ?case by (simp add: color_range.psimps)
qed

termination color
proof (relation "measures [\<lambda>x. case x of Inl (g, root) \<Rightarrow> unseen g | Inr (g, ps) \<Rightarrow> unseen g,
       \<lambda>x. case x of Inl (g, root) \<Rightarrow> 0 | Inr (g, ps) \<Rightarrow> Suc (length ps)]",
    goal_cases)
  case 1
  show ?case by simp
next
  case (2 g root)
  then show ?case using unseen_mark[of root "heap g"] by (simp add: unseen_def)
next
  case (3 g other rest)
  show ?case by simp
next
  case (4 g other rest)
  then show ?case using color_unseen_dom(1)[of g other] by auto
qed

section \<open>Quieting and reporting\<close>

definition set_quiet :: "graph \<Rightarrow> nat \<Rightarrow> graph" where
  "set_quiet g p = g\<lparr>heap := (heap g)[p := (heap g ! p)\<lparr>quiet := True\<rparr>]\<rparr>"

text \<open>The closure \<^verbatim>\<open>quieten\<close> of \<^verbatim>\<open>Checker.Check\<close>, on the node \<open>p\<close>.\<close>

definition quieten :: "lint_pkg \<Rightarrow> graph \<Rightarrow> nat \<Rightarrow> graph" where
  "quieten lp g p =
     (if seen (heap g ! p) then g
      else
        (case obj (heap g ! p) of
           IObject (OVar v) \<Rightarrow> if \<not> IsField v then set_quiet g p else g
         | IType (TNamed tn u ms) \<Rightarrow>
             fold (\<lambda>m g'. case nodeMaybe g' (IFunction (FuncValue (SSA lp) m)) of
                           Some q \<Rightarrow> set_quiet g' q
                         | None \<Rightarrow> g') ms g
         | IType (TStruct fs) \<Rightarrow>
             fold (\<lambda>f g'. case nodeMaybe g' (IObject (OVar f)) of
                           Some q \<Rightarrow> set_quiet g' q
                         | None \<Rightarrow> g') fs g
         | _ \<Rightarrow> g))"

text \<open>The two loops that call \<^verbatim>\<open>quieten\<close>: over \<^verbatim>\<open>graph.Nodes\<close>, then over
  \<^verbatim>\<open>graph.TypeNodes\<close>.\<close>

definition quieten_all :: "lint_pkg \<Rightarrow> graph \<Rightarrow> graph" where
  "quieten_all lp g =
     (let g1 = fold (\<lambda>p g'. quieten lp g' p) (map snd (Nodes g)) g
      in fold (\<lambda>p g'. quieten lp g' p) (map snd (TypeNodes g1)) g1)"

text \<open>The closure \<^verbatim>\<open>report\<close> of \<^verbatim>\<open>Checker.Check\<close>, on the node \<open>p\<close>; \<open>out\<close> is the list
  it appends to.\<close>

definition report :: "lint_program \<Rightarrow> lint_pkg \<Rightarrow> graph \<Rightarrow> Unused list \<Rightarrow> nat \<Rightarrow> Unused list" where
  "report prog lp g out p =
     (if seen (heap g ! p) then out
      else if quiet (heap g ! p) then out
      else
        (case obj (heap g ! p) of
           IObject ob \<Rightarrow>
             if object_pkg ob = Types lp
             then out @ [\<lparr>Obj = ob, Position = Fset_Position prog (object_pos ob)\<rparr>]
             else out
         | IFunction None \<Rightarrow> out
         | IFunction (Some f) \<Rightarrow>
             (case fn_object f of
                None \<Rightarrow> out
              | Some fo \<Rightarrow>
                  if object_pkg (OFunc fo) = Types lp
                  then out @ [\<lparr>Obj = OFunc fo, Position = Fset_Position prog (fn_pos f)\<rparr>]
                  else out)
         | _ \<Rightarrow> out))"

definition report_all :: "lint_program \<Rightarrow> lint_pkg \<Rightarrow> graph \<Rightarrow> Unused list \<Rightarrow> Unused list" where
  "report_all prog lp g out =
     fold (\<lambda>p out'. report prog lp g out' p) (map snd (TypeNodes g))
       (fold (\<lambda>p out'. report prog lp g out' p) (map snd (Nodes g)) out)"

section \<open>The checker\<close>

text \<open>The map \<^verbatim>\<open>scopes\<close> that \<^verbatim>\<open>Checker.Check\<close> builds from the initial functions.\<close>

definition Check_scopes :: "ssa_function list \<Rightarrow> (nat \<times> ssa_function) list" where
  "Check_scopes fns =
     fold (\<lambda>fn sc. case fn_object fn of
                     None \<Rightarrow> sc
                   | Some fo \<Rightarrow> AList.update (func_scope fo) fn sc) fns []"

text \<open>The body of the loop of \<^verbatim>\<open>Checker.Check\<close> over the initial packages.\<close>

definition Check_pkg ::
  "nat \<Rightarrow> typeutil \<Rightarrow> lint_program \<Rightarrow> lint_job \<Rightarrow> lint_pkg \<Rightarrow> Unused list \<Rightarrow> panic + Unused list" where
  "Check_pkg n tu prog j lp out =
     (let graph = NewGraph (SSA lp) tu;
          graph = graph\<lparr>job := j, scopes := Check_scopes (InitialFunctions j)\<rparr>
      in case entry n (TypesInfo lp) graph of
           Inl e \<Rightarrow> Inl e
         | Inr graph \<Rightarrow>
             (let graph = color graph (Root graph);
                  graph = quieten_all lp graph
              in Inr (report_all prog lp graph out)))"

definition Check :: "nat \<Rightarrow> typeutil \<Rightarrow> lint_program \<Rightarrow> lint_job \<Rightarrow> panic + Unused list" where
  "Check n tu prog j = each (InitialPackages prog) (\<lambda>lp. Check_pkg n tu prog j lp) []"


section \<open>Reachability and coloring\<close>

definition successors :: "graph \<Rightarrow> nat \<Rightarrow> nat list" where
  "successors g p = map fst (used (heap g ! p))"

definition edges :: "graph \<Rightarrow> (nat \<times> nat) set" where
  "edges g = {(u, v). u < length (heap g) \<and> v \<in> set (successors g u)}"

text \<open>Every target of an edge is a node of the graph.\<close>

definition wf_edges :: "graph \<Rightarrow> bool" where
  "wf_edges g =
     list_all (\<lambda>n. list_all (\<lambda>v. v < length (heap g)) (map fst (used n))) (heap g)"

definition fresh :: "graph \<Rightarrow> bool" where
  "fresh g = list_all (\<lambda>n. \<not> seen n) (heap g)"

lemma wf_edges_iff:
  "wf_edges g \<longleftrightarrow> (\<forall>u<length (heap g). \<forall>v\<in>set (successors g u). v < length (heap g))"
  by (simp add: wf_edges_def successors_def list_all_iff) (metis in_set_conv_nth)

definition seen_set :: "graph \<Rightarrow> nat set" where
  "seen_set g = {p. p < length (heap g) \<and> seen (heap g ! p)}"

definition same_edges :: "graph \<Rightarrow> graph \<Rightarrow> bool" where
  "same_edges g g' =
     (length (heap g') = length (heap g)
      \<and> (\<forall>p<length (heap g). used (heap g' ! p) = used (heap g ! p)))"

lemma same_edges_refl: "same_edges g g"
  by (simp add: same_edges_def)

lemma same_edges_trans: "same_edges g g1 \<Longrightarrow> same_edges g1 g2 \<Longrightarrow> same_edges g g2"
  by (simp add: same_edges_def)

lemma same_edges_successors:
  "same_edges g g' \<Longrightarrow> u < length (heap g) \<Longrightarrow> successors g' u = successors g u"
  by (simp add: same_edges_def successors_def)

lemma same_edges_edges: "same_edges g g' \<Longrightarrow> edges g' = edges g"
  by (auto simp: edges_def same_edges_def successors_def)

lemma same_edges_wf: "same_edges g g' \<Longrightarrow> wf_edges g \<Longrightarrow> wf_edges g'"
  by (simp add: wf_edges_iff same_edges_def successors_def)

lemma same_edges_seen_on:
  "root < length (heap g) \<Longrightarrow>
   same_edges g (g\<lparr>heap := (heap g)[root := (heap g ! root)\<lparr>seen := True\<rparr>]\<rparr>)"
  by (simp add: same_edges_def nth_list_update)

lemma seen_set_seen_on:
  "root < length (heap g) \<Longrightarrow>
   seen_set (g\<lparr>heap := (heap g)[root := (heap g ! root)\<lparr>seen := True\<rparr>]\<rparr>)
     = insert root (seen_set g)"
  by (auto simp: seen_set_def nth_list_update)

definition reach :: "graph \<Rightarrow> nat set \<Rightarrow> nat set" where
  "reach g A = {v. \<exists>u\<in>A. (u, v) \<in> (edges g)\<^sup>*}"

definition colored :: "graph \<Rightarrow> nat set \<Rightarrow> graph \<Rightarrow> bool" where
  "colored g A g' =
     (same_edges g g'
      \<and> seen_set g \<subseteq> seen_set g'
      \<and> A \<subseteq> seen_set g'
      \<and> (\<forall>u\<in>seen_set g' - seen_set g. set (successors g u) \<subseteq> seen_set g')
      \<and> seen_set g' \<subseteq> seen_set g \<union> reach g A)"

lemma colored_skip: "root \<in> seen_set g \<Longrightarrow> colored g {root} g"
  by (auto simp: colored_def same_edges_refl)

lemma colored_nil: "colored g {} g"
  by (auto simp: colored_def same_edges_refl)

lemma reach_step:
  "root < length (heap g) \<Longrightarrow> reach g (set (successors g root)) \<subseteq> reach g {root}"
proof
  fix v
  assume r: "root < length (heap g)" and "v \<in> reach g (set (successors g root))"
  then obtain u where u: "u \<in> set (successors g root)" "(u, v) \<in> (edges g)\<^sup>*"
    by (auto simp: reach_def)
  from r u(1) have "(root, u) \<in> edges g" by (simp add: edges_def)
  then have "(root, v) \<in> (edges g)\<^sup>*" using u(2) by (rule converse_rtrancl_into_rtrancl)
  then show "v \<in> reach g {root}" by (simp add: reach_def)
qed

lemma colored_visit:
  assumes r: "root < length (heap g)"
    and g1: "g1 = g\<lparr>heap := (heap g)[root := (heap g ! root)\<lparr>seen := True\<rparr>]\<rparr>"
    and c: "colored g1 (set (successors g root)) g'"
  shows "colored g {root} g'"
proof -
  have se: "same_edges g g1" using r g1 by (simp add: same_edges_seen_on)
  have ss: "seen_set g1 = insert root (seen_set g)" using r g1 by (simp add: seen_set_seen_on)
  have ed: "edges g1 = edges g" using se by (rule same_edges_edges)
  have su: "\<And>u. u < length (heap g) \<Longrightarrow> successors g1 u = successors g u"
    using se by (rule same_edges_successors)
  have len: "length (heap g1) = length (heap g)" using se by (simp add: same_edges_def)
  have rc: "reach g1 = reach g" using ed by (simp add: reach_def fun_eq_iff)
  from c have c1: "same_edges g1 g'" and c2: "seen_set g1 \<subseteq> seen_set g'"
    and c3: "set (successors g root) \<subseteq> seen_set g'"
    and c4: "\<forall>u\<in>seen_set g' - seen_set g1. set (successors g1 u) \<subseteq> seen_set g'"
    and c5: "seen_set g' \<subseteq> seen_set g1 \<union> reach g1 (set (successors g root))"
    by (simp_all add: colored_def)
  have a: "same_edges g g'" using se c1 by (rule same_edges_trans)
  have b: "seen_set g \<subseteq> seen_set g'" using c2 ss by auto
  have c': "{root} \<subseteq> seen_set g'" using c2 ss by auto
  have d: "\<forall>u\<in>seen_set g' - seen_set g. set (successors g u) \<subseteq> seen_set g'"
  proof
    fix u assume u: "u \<in> seen_set g' - seen_set g"
    show "set (successors g u) \<subseteq> seen_set g'"
    proof (cases "u = root")
      case True
      then show ?thesis using c3 by simp
    next
      case False
      with u ss have "u \<in> seen_set g' - seen_set g1" by auto
      with c4 have "set (successors g1 u) \<subseteq> seen_set g'" by blast
      moreover have "u < length (heap g)" using u a by (simp add: seen_set_def same_edges_def)
      ultimately show ?thesis using su by simp
    qed
  qed
  have "root \<in> reach g {root}" by (simp add: reach_def)
  then have e: "seen_set g' \<subseteq> seen_set g \<union> reach g {root}"
    using c5 ss rc reach_step[OF r] by auto
  show ?thesis unfolding colored_def using a b c' d e by blast
qed

lemma reach_mono: "A \<subseteq> B \<Longrightarrow> reach g A \<subseteq> reach g B"
  by (auto simp: reach_def)

lemma colored_seq:
  assumes c1: "colored g {other} g1" and c2: "colored g1 (set rest) g2"
  shows "colored g (set (other # rest)) g2"
proof -
  from c1 have a1: "same_edges g g1" and a2: "seen_set g \<subseteq> seen_set g1"
    and a3: "other \<in> seen_set g1"
    and a4: "\<forall>u\<in>seen_set g1 - seen_set g. set (successors g u) \<subseteq> seen_set g1"
    and a5: "seen_set g1 \<subseteq> seen_set g \<union> reach g {other}"
    by (simp_all add: colored_def)
  from c2 have b1: "same_edges g1 g2" and b2: "seen_set g1 \<subseteq> seen_set g2"
    and b3: "set rest \<subseteq> seen_set g2"
    and b4: "\<forall>u\<in>seen_set g2 - seen_set g1. set (successors g1 u) \<subseteq> seen_set g2"
    and b5: "seen_set g2 \<subseteq> seen_set g1 \<union> reach g1 (set rest)"
    by (simp_all add: colored_def)
  have ed: "edges g1 = edges g" using a1 by (rule same_edges_edges)
  have rc: "reach g1 = reach g" using ed by (simp add: reach_def fun_eq_iff)
  have len: "length (heap g1) = length (heap g)" using a1 by (simp add: same_edges_def)
  have su: "\<And>u. u < length (heap g) \<Longrightarrow> successors g1 u = successors g u"
    using a1 by (rule same_edges_successors)
  have a: "same_edges g g2" using a1 b1 by (rule same_edges_trans)
  have b: "seen_set g \<subseteq> seen_set g2" using a2 b2 by auto
  have c: "set (other # rest) \<subseteq> seen_set g2" using a3 b2 b3 by auto
  have d: "\<forall>u\<in>seen_set g2 - seen_set g. set (successors g u) \<subseteq> seen_set g2"
  proof
    fix u assume u: "u \<in> seen_set g2 - seen_set g"
    have ul: "u < length (heap g)" using u a by (simp add: seen_set_def same_edges_def)
    show "set (successors g u) \<subseteq> seen_set g2"
    proof (cases "u \<in> seen_set g1")
      case True
      with u a4 have "set (successors g u) \<subseteq> seen_set g1" by blast
      with b2 show ?thesis by blast
    next
      case False
      with u b4 have "set (successors g1 u) \<subseteq> seen_set g2" by blast
      with su[OF ul] show ?thesis by simp
    qed
  qed
  have "reach g {other} \<subseteq> reach g (set (other # rest))"
    and "reach g (set rest) \<subseteq> reach g (set (other # rest))"
    by (auto intro!: reach_mono)
  then have e: "seen_set g2 \<subseteq> seen_set g \<union> reach g (set (other # rest))"
    using a5 b5 rc by auto
  show ?thesis unfolding colored_def using a b c d e by blast
qed

lemma color_colored:
  "wf_edges g \<Longrightarrow> root < length (heap g) \<Longrightarrow> colored g {root} (color g root)"
  "wf_edges g \<Longrightarrow> \<forall>p\<in>set ps. p < length (heap g) \<Longrightarrow> colored g (set ps) (color_range g ps)"
proof (induction g root and g ps rule: color_color_range.induct)
  case (1 g root)
  show ?case
  proof (cases "seen (heap g ! root)")
    case True
    then have "root \<in> seen_set g" using 1 by (simp add: seen_set_def)
    then show ?thesis using True 1 by (simp add: colored_skip)
  next
    case False
    define g1 where "g1 = g\<lparr>heap := (heap g)[root := (heap g ! root)\<lparr>seen := True\<rparr>]\<rparr>"
    have se: "same_edges g g1" using 1 by (simp add: g1_def same_edges_seen_on)
    have wf1: "wf_edges g1" using se 1 by (simp add: same_edges_wf)
    have len: "length (heap g1) = length (heap g)" by (simp add: g1_def)
    have ps: "\<forall>p\<in>set (map fst (used (heap g ! root))). p < length (heap g1)"
      using 1(2,3) len by (simp add: wf_edges_iff successors_def)
    have "colored g1 (set (map fst (used (heap g ! root)))) (color_range g1 (map fst (used (heap g ! root))))"
      using 1(1)[OF 1(3) False, folded g1_def, OF wf1 ps] .
    then have "colored g1 (set (successors g root)) (color_range g1 (map fst (used (heap g ! root))))"
      by (simp add: successors_def)
    then have "colored g {root} (color_range g1 (map fst (used (heap g ! root))))"
      using colored_visit[OF 1(3) g1_def] by blast
    then show ?thesis using False 1(3) by (simp add: g1_def)
  qed
next
  case (2 g)
  show ?case by (simp add: colored_nil)
next
  case (3 g other rest)
  have o: "other < length (heap g)" using 3 by simp
  have c1: "colored g {other} (color g other)" using 3(1)[OF 3(3) o] .
  then have se: "same_edges g (color g other)" by (simp add: colored_def)
  then have wf1: "wf_edges (color g other)" using 3(3) by (simp add: same_edges_wf)
  have r: "\<forall>p\<in>set rest. p < length (heap (color g other))"
    using 3(4) se by (simp add: same_edges_def)
  have c2: "colored (color g other) (set rest) (color_range (color g other) rest)"
    using 3(2)[OF wf1 r] .
  show ?case using colored_seq[OF c1 c2] by simp
qed

lemma closed_reach:
  assumes "(r, v) \<in> (edges g)\<^sup>*" "r \<in> F" "\<forall>u\<in>F. u < length (heap g) \<and> set (successors g u) \<subseteq> F"
  shows "v \<in> F"
  using assms
proof (induction rule: rtrancl_induct)
  case base
  then show ?case by simp
next
  case (step y z)
  then have "y \<in> F" by simp
  with step(5) have "set (successors g y) \<subseteq> F" by blast
  moreover from step(2) have "z \<in> set (successors g y)" by (simp add: edges_def)
  ultimately show ?case by blast
qed

lemma color_length_reach:
  assumes wf: "wf_edges g" and r: "Root g < length (heap g)"
    and fresh: "fresh g"
    and p: "p < length (heap g)"
  shows "length (heap (color g (Root g))) = length (heap g)
       \<and> (seen (heap (color g (Root g)) ! p) \<longleftrightarrow> (Root g, p) \<in> (edges g)\<^sup>*)"
proof -
  let ?g' = "color g (Root g)"
  have c: "colored g {Root g} ?g'" using wf r by (rule color_colored(1))
  have e: "seen_set g = {}" using fresh by (auto simp: seen_set_def fresh_def list_all_length)
  from c have len: "length (heap ?g') = length (heap g)"
    by (simp add: colored_def same_edges_def)
  from c e have root: "Root g \<in> seen_set ?g'"
    and cl: "\<forall>u\<in>seen_set ?g'. set (successors g u) \<subseteq> seen_set ?g'"
    and snd: "seen_set ?g' \<subseteq> reach g {Root g}"
    by (simp_all add: colored_def)
  have cl': "\<forall>u\<in>seen_set ?g'. u < length (heap g) \<and> set (successors g u) \<subseteq> seen_set ?g'"
    using cl len by (simp add: seen_set_def)
  have "seen (heap ?g' ! p) \<longleftrightarrow> p \<in> seen_set ?g'" using p len by (simp add: seen_set_def)
  also have "\<dots> \<longleftrightarrow> (Root g, p) \<in> (edges g)\<^sup>*"
  proof
    assume "p \<in> seen_set ?g'"
    with snd show "(Root g, p) \<in> (edges g)\<^sup>*" by (auto simp: reach_def)
  next
    assume "(Root g, p) \<in> (edges g)\<^sup>*"
    then show "p \<in> seen_set ?g'" using root cl' by (rule closed_reach)
  qed
  finally show ?thesis using len by simp
qed

lemma color_reach:
  assumes "wf_edges g" and "Root g < length (heap g)" and "fresh g" and "p < length (heap g)"
  shows "seen (heap (color g (Root g)) ! p) \<longleftrightarrow> (Root g, p) \<in> (edges g)\<^sup>*"
  using color_length_reach[OF assms] by simp

text \<open>
  Claim C1.  On a graph in which no node is seen yet, \<open>color\<close> from the root marks exactly
  the nodes that are reachable from the root along the edges of the \<^verbatim>\<open>used\<close> maps, and it
  leaves the set of nodes as it is.  \<open>color\<close> is a total function: its termination is
  proved above for every graph, cyclic or not, by the number of nodes not yet seen.
\<close>

theorem color_reachable:
  assumes "wf_edges g" and "Root g < length (heap g)" and "fresh g" and "p < length (heap g)"
  shows "length (heap (color g (Root g))) = length (heap g)
       \<and> (seen (heap (color g (Root g)) ! p) \<longleftrightarrow> (Root g, p) \<in> (edges g)\<^sup>*)"
  using assms by (rule color_length_reach)

definition cyclic_graph :: graph where
  "cyclic_graph =
     \<lparr>job = \<lparr>InitialFunctions = []\<rparr>,
      pkg = \<lparr>Pkg = Some ''p'', PkgName = ''p'', FuncValue = (\<lambda>f. None), Members = [],
             Blocks = (\<lambda>f. []), AnonFuncs = (\<lambda>f. []), Value = (\<lambda>v. VOther)\<rparr>,
      msCache = \<lparr>MethodSet = (\<lambda>t. []), Lookup = (\<lambda>t p n. None), implements = (\<lambda>t i. False)\<rparr>,
      scopes = [], nodeCounter = 4, Root = 0, TypeNodes = [], Nodes = [],
      seenTypes = [], seenFns = [],
      heap = [\<lparr>obj = INil, nid = 1, used = [(1, ''exported top-level type'')], seen = False, quiet = False\<rparr>,
              \<lparr>obj = IObject (OTypeName (NewTypeName ''T'' (Some ''p'') 10)), nid = 2,
                used = [(2, ''named type'')], seen = False, quiet = False\<rparr>,
              \<lparr>obj = IType (TNamed (NewTypeName ''T'' (Some ''p'') 10) (TBasic KInt) []), nid = 3,
                used = [(1, ''type name'')], seen = False, quiet = False\<rparr>,
              \<lparr>obj = IObject (OTypeName (NewTypeName ''u'' (Some ''p'') 20)), nid = 4,
                used = [(1, ''x'')], seen = False, quiet = False\<rparr>]\<rparr>"

theorem color_reachable_witness:
  "length (heap (color cyclic_graph (Root cyclic_graph))) = length (heap cyclic_graph)
   \<and> (seen (heap (color cyclic_graph (Root cyclic_graph)) ! 2)
        \<longleftrightarrow> (Root cyclic_graph, 2) \<in> (edges cyclic_graph)\<^sup>*)
   \<and> seen (heap (color cyclic_graph (Root cyclic_graph)) ! 2)
   \<and> (Root cyclic_graph, 3) \<notin> (edges cyclic_graph)\<^sup>*"
proof -
  have wf: "wf_edges cyclic_graph" by (simp add: wf_edges_def cyclic_graph_def)
  have r: "Root cyclic_graph < length (heap cyclic_graph)" by (simp add: cyclic_graph_def)
  have f: "fresh cyclic_graph" by (simp add: fresh_def cyclic_graph_def)
  have l: "length (heap cyclic_graph) = 4" by (simp add: cyclic_graph_def)
  have s2: "seen (heap (color cyclic_graph (Root cyclic_graph)) ! 2)"
    by (simp add: cyclic_graph_def)
  have s3: "\<not> seen (heap (color cyclic_graph (Root cyclic_graph)) ! 3)"
    by (simp add: cyclic_graph_def)
  show ?thesis
    using color_reachable[OF wf r f, of 2] color_reachable[OF wf r f, of 3] s2 s3 l by simp
qed

section \<open>The relevance filter by kind of type\<close>

fun isPointer :: "gtype \<Rightarrow> bool" where
  "isPointer (TPointer e) = True"
| "isPointer T = False"

lemma Dereference_simps:
  "Dereference (TBasic k) = TBasic k"
  "Dereference (TArray n e) = TArray n e"
  "Dereference (TSlice e) = TSlice e"
  "Dereference (TPointer e) = e"
  "Dereference (TChan e) = TChan e"
  "Dereference (TMap k' e) = TMap k' e"
  "Dereference (TTuple vs) = TTuple vs"
  "Dereference (TSignature sg) = TSignature sg"
  "Dereference (TInterface ms) = TInterface ms"
  "Dereference (TStruct fs) = TStruct fs"
  "Dereference (TNamed tn u ms) = (case u of TPointer e \<Rightarrow> e | _ \<Rightarrow> TNamed tn u ms)"
  by (simp_all add: Dereference_def)

lemma Dereference_not_pointer: "\<not> isPointer (Underlying T) \<Longrightarrow> Dereference T = T"
  by (cases "Underlying T") (simp_all add: Dereference_def)

lemma isIrrelevant_pointer_to_pointer:
  "isPointer (Underlying e) \<Longrightarrow> \<not> isIrrelevant (IType (TPointer e))"
  by (cases e rule: Underlying.cases) (auto simp: Dereference_simps)

lemma isIrrelevant_pointer:
  "isIrrelevant (IType (TPointer e)) \<longleftrightarrow> isIrrelevant (IType e) \<and> \<not> isPointer (Underlying e)"
proof (cases "isPointer (Underlying e)")
  case True
  then show ?thesis using isIrrelevant_pointer_to_pointer by blast
next
  case False
  then have "Dereference e = e" by (rule Dereference_not_pointer)
  then show ?thesis using False by (simp add: Dereference_simps)
qed

lemma isIrrelevant_named:
  "isIrrelevant (IType (TNamed tn u ms)) \<longleftrightarrow> isPointer u \<and> isIrrelevant (IType u)"
  by (cases u) (simp_all add: Dereference_simps)




section \<open>The NoCopy sentinel is recognised by shape\<close>

text \<open>
  \<open>isNoCopyType\<close> reads the shape of the type and nothing else: a named type over a
  struct without fields, with one method, named Lock, without parameters and results.
\<close>

lemma isNoCopyType_iff:
  "isNoCopyType T \<longleftrightarrow>
     (\<exists>tn m. T = TNamed tn (TStruct []) [m] \<and> func_name m = ''Lock''
             \<and> Params (func_sig m) = [] \<and> Results (func_sig m) = [])"
proof (cases T)
  case (TNamed tn u ms)
  show ?thesis
  proof (cases u)
    case (TStruct fs)
    show ?thesis
    proof (cases ms)
      case Nil
      then show ?thesis using TNamed TStruct by (simp add: isNoCopyType_def)
    next
      case (Cons m rest)
      then show ?thesis using TNamed TStruct by (cases rest) (auto simp: isNoCopyType_def Let_def)
    qed
  qed (simp_all add: isNoCopyType_def TNamed)
qed (simp_all add: isNoCopyType_def)

definition noCopy :: gtype where
  "noCopy = TNamed (NewTypeName ''noCopy'' (Some ''p'') 10) (TStruct [])
              [NewFunc ''Lock'' (Some ''p'') 11 1
                 (NewSignature (Some (NewVar '''' (Some ''p'') 12 False False (TBasic KInt))) [] [])]"

section \<open>Edges are keyed by their target\<close>

lemma count_key_distinct:
  "distinct (map fst al) \<Longrightarrow> map_of al k = Some x \<Longrightarrow>
   length (filter (\<lambda>e. fst e = k) al) = 1"
proof (induction al)
  case Nil
  then show ?case by simp
next
  case (Cons a al)
  show ?case
  proof (cases "fst a = k")
    case True
    with Cons(2) have "k \<notin> fst ` set al" by simp
    then have "\<forall>e\<in>set al. fst e \<noteq> k" by blast
    then have "filter (\<lambda>e. fst e = k) al = []" by (simp add: filter_empty_conv)
    with True show ?thesis by simp
  next
    case False
    with Cons show ?thesis by (cases a) auto
  qed
qed

lemma Node_use_new: "fst (Node_use n v r) \<longleftrightarrow> map_of (used n) v \<noteq> Some r"
  by (simp add: Node_use_def)

lemma Node_use_lookup: "map_of (used (snd (Node_use n v r))) = (map_of (used n))(v \<mapsto> r)"
  by (auto simp: Node_use_def update_conv')

lemma Node_use_distinct:
  "distinct (map fst (used n)) \<Longrightarrow> distinct (map fst (used (snd (Node_use n v r))))"
  by (simp add: Node_use_def distinct_update)

lemma Node_use_again: "snd (Node_use (snd (Node_use n v r)) v r) = snd (Node_use n v r)"
  by (simp add: Node_use_def update_conv')

text \<open>
  Claim C4, amended.  The edges of a node are keyed by their target alone.  Recording the
  edge to \<open>v\<close> with reason \<open>r\<close> twice leaves exactly one edge to \<open>v\<close>, and the second
  call reports it as not new.  Recording the edge to \<open>v\<close> with reason \<open>r1\<close> and then
  with another reason \<open>r2\<close> also leaves exactly one edge to \<open>v\<close>: the second call reports
  a new edge and the reason \<open>r2\<close> replaces \<open>r1\<close>.
\<close>

theorem Node_use_target_keyed:
  assumes d: "distinct (map fst (used n))"
  shows "(let n1 = snd (Node_use n v r) in
            fst (Node_use n1 v r) = False \<and> snd (Node_use n1 v r) = n1
            \<and> length (filter (\<lambda>e. fst e = v) (used n1)) = 1
            \<and> map_of (used n1) v = Some r)
       \<and> (let n2 = snd (Node_use (snd (Node_use n v r1)) v r2) in
            (r1 \<noteq> r2 \<longrightarrow> fst (Node_use (snd (Node_use n v r1)) v r2) = True
                          \<and> (v, r1) \<notin> set (used n2))
            \<and> length (filter (\<lambda>e. fst e = v) (used n2)) = 1
            \<and> map_of (used n2) v = Some r2)"
proof -
  let ?n1 = "snd (Node_use n v r)"
  let ?m1 = "snd (Node_use n v r1)"
  let ?n2 = "snd (Node_use ?m1 v r2)"
  have d1: "distinct (map fst (used ?n1))" using d by (rule Node_use_distinct)
  have l1: "map_of (used ?n1) v = Some r" by (simp add: Node_use_lookup)
  have c1: "length (filter (\<lambda>e. fst e = v) (used ?n1)) = 1"
    using d1 l1 by (rule count_key_distinct)
  have a1: "fst (Node_use ?n1 v r) = False" using l1 by (simp add: Node_use_new)
  have d2: "distinct (map fst (used ?n2))" using d by (intro Node_use_distinct)
  have l2: "map_of (used ?n2) v = Some r2" by (simp add: Node_use_lookup)
  have c2: "length (filter (\<lambda>e. fst e = v) (used ?n2)) = 1"
    using d2 l2 by (rule count_key_distinct)
  have new2: "r1 \<noteq> r2 \<Longrightarrow> fst (Node_use ?m1 v r2) = True"
    by (simp add: Node_use_new Node_use_lookup)
  have gone: "(v, r1) \<notin> set (used ?n2)" if "r1 \<noteq> r2"
  proof
    assume "(v, r1) \<in> set (used ?n2)"
    then have "map_of (used ?n2) v = Some r1" using d2 by (simp only: map_of_eq_Some_iff)
    with l2 that show False by simp
  qed
  have p1: "fst (Node_use ?n1 v r) = False \<and> snd (Node_use ?n1 v r) = ?n1
            \<and> length (filter (\<lambda>e. fst e = v) (used ?n1)) = 1
            \<and> map_of (used ?n1) v = Some r"
    using a1 c1 l1 Node_use_again[of n v r] by simp
  have p2: "(r1 \<noteq> r2 \<longrightarrow> fst (Node_use ?m1 v r2) = True \<and> (v, r1) \<notin> set (used ?n2))
            \<and> length (filter (\<lambda>e. fst e = v) (used ?n2)) = 1
            \<and> map_of (used ?n2) v = Some r2"
    using c2 l2 new2 gone by simp
  show ?thesis unfolding Let_def using p1 p2 by (rule conjI)
qed

definition empty_node :: node where
  "empty_node = \<lparr>obj = INil, nid = 1, used = [], seen = False, quiet = False\<rparr>"

theorem Node_use_target_keyed_witness:
  "fst (Node_use (snd (Node_use empty_node 7 ''exported constant'')) 7 ''used constant'') = True
   \<and> (7, ''exported constant'') \<notin> set (used (snd (Node_use (snd (Node_use empty_node 7 ''exported constant'')) 7 ''used constant'')))
   \<and> map_of (used (snd (Node_use (snd (Node_use empty_node 7 ''exported constant'')) 7 ''used constant''))) 7 = Some ''used constant''"
proof -
  have d: "distinct (map fst (used empty_node))" by (simp add: empty_node_def)
  have ne: "''exported constant'' \<noteq> ''used constant''" by simp
  show ?thesis
    using Node_use_target_keyed[OF d, of 7 "''exported constant''" "''exported constant''" "''used constant''"] ne
    unfolding Let_def by blast
qed

text \<open>The claim as stated fails: after two reasons for one target only the second reason
  is left.\<close>

theorem Node_use_reasons_counterexample:
  "\<not> ((7, ''exported constant'') \<in> set (used (snd (Node_use (snd (Node_use empty_node 7 ''exported constant'')) 7 ''used constant'')))
      \<and> (7, ''used constant'') \<in> set (used (snd (Node_use (snd (Node_use empty_node 7 ''exported constant'')) 7 ''used constant''))))"
  by (simp add: Node_use_def empty_node_def)

section \<open>Reporting\<close>

fun semantic_object :: "iface \<Rightarrow> gobject option" where
  "semantic_object (IObject ob) = Some ob"
| "semantic_object (IFunction (Some f)) = map_option OFunc (fn_object f)"
| "semantic_object x = None"

fun diagnostic_pos :: "iface \<Rightarrow> pos" where
  "diagnostic_pos (IObject ob) = object_pos ob"
| "diagnostic_pos (IFunction (Some f)) = fn_pos f"
| "diagnostic_pos x = 0"

definition reportable :: "lint_pkg \<Rightarrow> node \<Rightarrow> bool" where
  "reportable lp n =
     (\<not> seen n \<and> \<not> quiet n
      \<and> (case semantic_object (obj n) of None \<Rightarrow> False | Some ob \<Rightarrow> object_pkg ob = Types lp))"

definition diagnostics :: "lint_program \<Rightarrow> lint_pkg \<Rightarrow> graph \<Rightarrow> nat list \<Rightarrow> Unused list" where
  "diagnostics prog lp g ps =
     map (\<lambda>p. \<lparr>Obj = the (semantic_object (obj (heap g ! p))),
               Position = Fset_Position prog (diagnostic_pos (obj (heap g ! p)))\<rparr>)
         (filter (\<lambda>p. reportable lp (heap g ! p)) ps)"

lemma report_step:
  "report prog lp g out p = out @ diagnostics prog lp g [p]"
  by (auto simp: report_def diagnostics_def reportable_def
      split: iface.splits option.splits)

lemma report_fold:
  "fold (\<lambda>p out'. report prog lp g out' p) ps out = out @ diagnostics prog lp g ps"
proof (induction ps arbitrary: out)
  case Nil
  show ?case by (simp add: diagnostics_def)
next
  case (Cons p ps)
  have "diagnostics prog lp g (p # ps) = diagnostics prog lp g [p] @ diagnostics prog lp g ps"
    by (simp add: diagnostics_def)
  then show ?case using Cons[of "report prog lp g out p"] by (simp add: report_step)
qed

lemma diagnostics_pkg:
  "u \<in> set (diagnostics prog lp g ps) \<Longrightarrow> object_pkg (Obj u) = Types lp"
  by (auto simp: diagnostics_def reportable_def split: option.splits)

text \<open>
  Claim C2.  The two reporting loops, over \<^verbatim>\<open>Nodes\<close> and over \<^verbatim>\<open>TypeNodes\<close>, emit one record
  for every visited node that is unseen, not quiet, and whose semantic object (the object
  itself, or \<^verbatim>\<open>Object()\<close> of a function) has the package under analysis as its package, in
  the order of the visit, and nothing else.  The record carries that semantic object; so the
  package of every reported object is the package under analysis.
\<close>

theorem report_all_diagnostics:
  "report_all prog lp g [] = diagnostics prog lp g (map snd (Nodes g) @ map snd (TypeNodes g))
   \<and> length (report_all prog lp g [])
       = length (filter (\<lambda>p. reportable lp (heap g ! p)) (map snd (Nodes g) @ map snd (TypeNodes g)))
   \<and> (\<forall>u\<in>set (report_all prog lp g []). object_pkg (Obj u) = Types lp)"
proof -
  have e: "report_all prog lp g [] = diagnostics prog lp g (map snd (Nodes g) @ map snd (TypeNodes g))"
    by (simp add: report_all_def report_fold diagnostics_def)
  have l: "length (report_all prog lp g [])
       = length (filter (\<lambda>p. reportable lp (heap g ! p)) (map snd (Nodes g) @ map snd (TypeNodes g)))"
    unfolding e by (simp add: diagnostics_def)
  have p: "\<forall>u\<in>set (report_all prog lp g []). object_pkg (Obj u) = Types lp"
    unfolding e using diagnostics_pkg by blast
  show ?thesis using e l p by (intro conjI)
qed

definition report_graph :: graph where
  "report_graph =
     \<lparr>job = \<lparr>InitialFunctions = []\<rparr>,
      pkg = \<lparr>Pkg = Some ''p'', PkgName = ''p'', FuncValue = (\<lambda>f. None), Members = [],
             Blocks = (\<lambda>f. []), AnonFuncs = (\<lambda>f. []), Value = (\<lambda>v. VOther)\<rparr>,
      msCache = \<lparr>MethodSet = (\<lambda>t. []), Lookup = (\<lambda>t p n. None), implements = (\<lambda>t i. False)\<rparr>,
      scopes = [], nodeCounter = 6, Root = 0,
      TypeNodes = [(TStruct [NewVar ''f'' (Some ''p'') 3 True False (TBasic KInt)], 2)],
      Nodes = [(IObject (OTypeName (NewTypeName ''t'' (Some ''p'') 2)), 1),
               (IObject (OVar (NewVar ''f'' (Some ''p'') 3 True False (TBasic KInt))), 3),
               (IFunction (Some (Function 1 ''g'' (Some (NewFunc ''g'' (Some ''p'') 5 1 (NewSignature None [] [])))
                                  5 (Some ''p'') (NewSignature None [] []) None)), 4),
               (IObject (OFunc (NewFunc ''Println'' (Some ''fmt'') 9 2 (NewSignature None [] []))), 5)],
      seenTypes = [], seenFns = [],
      heap = [\<lparr>obj = INil, nid = 1, used = [], seen = True, quiet = False\<rparr>,
              \<lparr>obj = IObject (OTypeName (NewTypeName ''t'' (Some ''p'') 2)), nid = 2,
                used = [], seen = False, quiet = False\<rparr>,
              \<lparr>obj = IType (TStruct [NewVar ''f'' (Some ''p'') 3 True False (TBasic KInt)]), nid = 3,
                used = [], seen = False, quiet = False\<rparr>,
              \<lparr>obj = IObject (OVar (NewVar ''f'' (Some ''p'') 3 True False (TBasic KInt))), nid = 4,
                used = [], seen = False, quiet = True\<rparr>,
              \<lparr>obj = IFunction (Some (Function 1 ''g'' (Some (NewFunc ''g'' (Some ''p'') 5 1 (NewSignature None [] [])))
                                  5 (Some ''p'') (NewSignature None [] []) None)), nid = 5,
                used = [], seen = False, quiet = False\<rparr>,
              \<lparr>obj = IObject (OFunc (NewFunc ''Println'' (Some ''fmt'') 9 2 (NewSignature None [] []))), nid = 6,
                used = [], seen = False, quiet = False\<rparr>]\<rparr>"

definition report_prog :: lint_program where
  "report_prog = \<lparr>InitialPackages = [], Fset_Position = (\<lambda>p. (''p.go'', p, 1))\<rparr>"

definition report_pkg :: lint_pkg where
  "report_pkg = \<lparr>SSA = pkg report_graph, Types = Some ''p'',
                  TypesInfo = \<lparr>Defs = [], Uses = [], TypeNameType = (\<lambda>n. TBasic KInt)\<rparr>\<rparr>"

theorem report_all_diagnostics_witness:
  "report_all report_prog report_pkg report_graph []
     = [\<lparr>Obj = OTypeName (NewTypeName ''t'' (Some ''p'') 2), Position = (''p.go'', 2, 1)\<rparr>,
        \<lparr>Obj = OFunc (NewFunc ''g'' (Some ''p'') 5 1 (NewSignature None [] [])), Position = (''p.go'', 5, 1)\<rparr>]
   \<and> length (report_all report_prog report_pkg report_graph []) = 2"
proof -
  have "diagnostics report_prog report_pkg report_graph
          (map snd (Nodes report_graph) @ map snd (TypeNodes report_graph))
     = [\<lparr>Obj = OTypeName (NewTypeName ''t'' (Some ''p'') 2), Position = (''p.go'', 2, 1)\<rparr>,
        \<lparr>Obj = OFunc (NewFunc ''g'' (Some ''p'') 5 1 (NewSignature None [] [])), Position = (''p.go'', 5, 1)\<rparr>]"
    by (simp add: diagnostics_def reportable_def report_graph_def report_prog_def report_pkg_def)
  then show ?thesis
    using report_all_diagnostics[of report_prog report_pkg report_graph] by simp
qed

text \<open>
  Claim C10.  A node that holds a type (or nil, or a nil function) never adds a record,
  whatever its flags.  Whenever \<open>report\<close> adds a record, the node is unseen and not quiet
  and holds either an object of the package under analysis, which is reported, or a
  function whose object exists and belongs to that package, and that object is reported.
\<close>

theorem report_only_objects:
  "(obj (heap g ! p) = IType t \<longrightarrow> report prog lp g out p = out)
   \<and> (obj (heap g ! p) = INil \<longrightarrow> report prog lp g out p = out)
   \<and> (obj (heap g ! p) = IFunction None \<longrightarrow> report prog lp g out p = out)
   \<and> (report prog lp g out p \<noteq> out \<longrightarrow>
        \<not> seen (heap g ! p) \<and> \<not> quiet (heap g ! p)
        \<and> ((\<exists>ob. obj (heap g ! p) = IObject ob \<and> object_pkg ob = Types lp
                 \<and> report prog lp g out p
                     = out @ [\<lparr>Obj = ob, Position = Fset_Position prog (object_pos ob)\<rparr>])
           \<or> (\<exists>f fo. obj (heap g ! p) = IFunction (Some f) \<and> fn_object f = Some fo
                 \<and> func_pkg fo = Types lp
                 \<and> report prog lp g out p
                     = out @ [\<lparr>Obj = OFunc fo, Position = Fset_Position prog (fn_pos f)\<rparr>])))"
  by (auto simp: report_def split: iface.splits option.splits)

theorem report_only_objects_witness:
  "report report_prog report_pkg report_graph [] 2 = []
   \<and> report report_prog report_pkg report_graph [] 4
       = [\<lparr>Obj = OFunc (NewFunc ''g'' (Some ''p'') 5 1 (NewSignature None [] [])), Position = (''p.go'', 5, 1)\<rparr>]"
proof -
  have a: "obj (heap report_graph ! 2) = IType (TStruct [NewVar ''f'' (Some ''p'') 3 True False (TBasic KInt)])"
    by (simp add: report_graph_def)
  have b: "report report_prog report_pkg report_graph [] 4
       = [\<lparr>Obj = OFunc (NewFunc ''g'' (Some ''p'') 5 1 (NewSignature None [] [])), Position = (''p.go'', 5, 1)\<rparr>]"
    by (simp add: report_def report_graph_def report_prog_def report_pkg_def)
  show ?thesis
    using report_only_objects[of report_graph 2 "TStruct [NewVar ''f'' (Some ''p'') 3 True False (TBasic KInt)]"
        report_prog report_pkg "[]"] a b by simp
qed

section \<open>Quieting\<close>

definition qset :: "graph \<Rightarrow> nat set" where
  "qset g = {x. x < length (heap g) \<and> quiet (heap g ! x)}"

definition same_but_quiet :: "graph \<Rightarrow> graph \<Rightarrow> bool" where
  "same_but_quiet g g' =
     (Nodes g' = Nodes g \<and> TypeNodes g' = TypeNodes g \<and> Root g' = Root g
      \<and> length (heap g') = length (heap g)
      \<and> (\<forall>p<length (heap g). obj (heap g' ! p) = obj (heap g ! p)
                              \<and> seen (heap g' ! p) = seen (heap g ! p)
                              \<and> used (heap g' ! p) = used (heap g ! p)))"

lemma same_but_quiet_refl: "same_but_quiet g g"
  by (simp add: same_but_quiet_def)

lemma same_but_quiet_trans:
  "same_but_quiet g g1 \<Longrightarrow> same_but_quiet g1 g2 \<Longrightarrow> same_but_quiet g g2"
  by (simp add: same_but_quiet_def)

lemma same_but_quiet_nodeMaybe: "same_but_quiet g g' \<Longrightarrow> nodeMaybe g' x = nodeMaybe g x"
  by (simp add: same_but_quiet_def nodeMaybe_def split: iface.splits)

lemma nth_update_any: "p < length h \<Longrightarrow> h[q := v] ! p = (if p = q then v else h ! p)"
  by (cases "p = q") simp_all

lemma set_quiet_same: "same_but_quiet g (set_quiet g q)"
  by (simp add: same_but_quiet_def set_quiet_def nth_update_any)

lemma set_quiet_qset: "qset (set_quiet g q) = qset g \<union> {x. x < length (heap g) \<and> x = q}"
  by (auto simp: qset_def set_quiet_def nth_update_any)

definition quiet_of :: "('a \<Rightarrow> iface) \<Rightarrow> 'a \<Rightarrow> graph \<Rightarrow> graph" where
  "quiet_of key k g = (case nodeMaybe g (key k) of Some q \<Rightarrow> set_quiet g q | None \<Rightarrow> g)"

lemma quiet_of_same: "same_but_quiet g (quiet_of key k g)"
  by (simp add: quiet_of_def set_quiet_same same_but_quiet_refl split: option.splits)

lemma quiet_of_qset:
  "qset (quiet_of key k g) = qset g \<union> {x. x < length (heap g) \<and> nodeMaybe g (key k) = Some x}"
  by (auto simp: quiet_of_def set_quiet_qset split: option.splits)

lemma fold_quiet_of:
  "same_but_quiet g (fold (quiet_of key) ks g)
   \<and> qset (fold (quiet_of key) ks g)
       = qset g \<union> {x. x < length (heap g) \<and> (\<exists>k\<in>set ks. nodeMaybe g (key k) = Some x)}"
proof (induction ks arbitrary: g)
  case Nil
  show ?case by (simp add: same_but_quiet_refl)
next
  case (Cons k ks)
  let ?g1 = "quiet_of key k g"
  have s1: "same_but_quiet g ?g1" by (rule quiet_of_same)
  have len: "length (heap ?g1) = length (heap g)" using s1 by (simp add: same_but_quiet_def)
  have nm: "\<And>x. nodeMaybe ?g1 x = nodeMaybe g x" using s1 by (rule same_but_quiet_nodeMaybe)
  from Cons[of ?g1] have s2: "same_but_quiet ?g1 (fold (quiet_of key) ks ?g1)"
    and q2: "qset (fold (quiet_of key) ks ?g1)
       = qset ?g1 \<union> {x. x < length (heap ?g1) \<and> (\<exists>k\<in>set ks. nodeMaybe ?g1 (key k) = Some x)}"
    by simp_all
  have a: "same_but_quiet g (fold (quiet_of key) (k # ks) g)"
    using same_but_quiet_trans[OF s1 s2] by simp
  have b: "qset (fold (quiet_of key) (k # ks) g)
       = qset g \<union> {x. x < length (heap g) \<and> (\<exists>k\<in>set (k # ks). nodeMaybe g (key k) = Some x)}"
    using q2 by (auto simp: quiet_of_qset len nm)
  show ?case using a b by (rule conjI)
qed

definition quiet_trigger :: "lint_pkg \<Rightarrow> graph \<Rightarrow> nat \<Rightarrow> nat \<Rightarrow> bool" where
  "quiet_trigger lp g p x =
     (\<not> seen (heap g ! p)
      \<and> ((\<exists>v. obj (heap g ! p) = IObject (OVar v) \<and> \<not> IsField v \<and> x = p)
         \<or> (\<exists>tn u ms m. obj (heap g ! p) = IType (TNamed tn u ms) \<and> m \<in> set ms
               \<and> nodeMaybe g (IFunction (FuncValue (SSA lp) m)) = Some x)
         \<or> (\<exists>fs f. obj (heap g ! p) = IType (TStruct fs) \<and> f \<in> set fs
               \<and> nodeMaybe g (IObject (OVar f)) = Some x)))"

lemma quieten_alt:
  "quieten lp g p =
     (if seen (heap g ! p) then g
      else
        (case obj (heap g ! p) of
           IObject (OVar v) \<Rightarrow> if \<not> IsField v then set_quiet g p else g
         | IType (TNamed tn u ms) \<Rightarrow>
             fold (quiet_of (\<lambda>m. IFunction (FuncValue (SSA lp) m))) ms g
         | IType (TStruct fs) \<Rightarrow> fold (quiet_of (\<lambda>f. IObject (OVar f))) fs g
         | _ \<Rightarrow> g))"
  unfolding quieten_def quiet_of_def by (rule refl)

lemma quieten_same: "same_but_quiet g (quieten lp g p)"
  by (simp add: quieten_alt same_but_quiet_refl set_quiet_same fold_quiet_of
      split: iface.splits gobject.splits gtype.splits)

lemma quieten_qset:
  "qset (quieten lp g p) = qset g \<union> {x. x < length (heap g) \<and> quiet_trigger lp g p x}"
proof (cases "seen (heap g ! p)")
  case True
  then show ?thesis by (simp add: quieten_alt quiet_trigger_def)
next
  case False
  show ?thesis
  proof (cases "obj (heap g ! p)")
    case INil
    then show ?thesis using False by (simp add: quieten_alt quiet_trigger_def)
  next
    case (IObject ob)
    then show ?thesis using False
      by (cases ob) (auto simp: quieten_alt quiet_trigger_def set_quiet_qset)
  next
    case (IType t)
    then show ?thesis using False
      by (cases t) (auto simp: quieten_alt quiet_trigger_def fold_quiet_of)
  next
    case (IFunction f)
    then show ?thesis using False by (simp add: quieten_alt quiet_trigger_def)
  qed
qed

lemma quiet_trigger_same:
  "same_but_quiet g g' \<Longrightarrow> p < length (heap g) \<Longrightarrow>
   quiet_trigger lp g' p x = quiet_trigger lp g p x"
  by (simp add: quiet_trigger_def same_but_quiet_nodeMaybe) (simp add: same_but_quiet_def)

lemma fold_quieten:
  "\<forall>p\<in>set ps. p < length (heap g) \<Longrightarrow>
   same_but_quiet g (fold (\<lambda>p g'. quieten lp g' p) ps g)
   \<and> qset (fold (\<lambda>p g'. quieten lp g' p) ps g)
       = qset g \<union> {x. x < length (heap g) \<and> (\<exists>p\<in>set ps. quiet_trigger lp g p x)}"
proof (induction ps arbitrary: g)
  case Nil
  show ?case by (simp add: same_but_quiet_refl)
next
  case (Cons p ps)
  let ?g1 = "quieten lp g p"
  have s1: "same_but_quiet g ?g1" by (rule quieten_same)
  have len: "length (heap ?g1) = length (heap g)" using s1 by (simp add: same_but_quiet_def)
  have r: "\<forall>p\<in>set ps. p < length (heap ?g1)" using Cons(2) len by simp
  have tr: "\<And>q x. q \<in> set ps \<Longrightarrow> quiet_trigger lp ?g1 q x = quiet_trigger lp g q x"
    using quiet_trigger_same[OF s1] Cons(2) by simp
  from Cons(1)[OF r] have s2: "same_but_quiet ?g1 (fold (\<lambda>p g'. quieten lp g' p) ps ?g1)"
    and q2: "qset (fold (\<lambda>p g'. quieten lp g' p) ps ?g1)
       = qset ?g1 \<union> {x. x < length (heap ?g1) \<and> (\<exists>p\<in>set ps. quiet_trigger lp ?g1 p x)}"
    by simp_all
  have a: "same_but_quiet g (fold (\<lambda>p g'. quieten lp g' p) (p # ps) g)"
    using same_but_quiet_trans[OF s1 s2] by simp
  have b: "qset (fold (\<lambda>p g'. quieten lp g' p) (p # ps) g)
       = qset g \<union> {x. x < length (heap g) \<and> (\<exists>p\<in>set (p # ps). quiet_trigger lp g p x)}"
    using q2 tr by (auto simp: quieten_qset len)
  show ?case using a b by (rule conjI)
qed

definition visited :: "graph \<Rightarrow> nat list" where
  "visited g = map snd (Nodes g) @ map snd (TypeNodes g)"

lemma quieten_all_result:
  assumes v: "\<forall>p\<in>set (visited g). p < length (heap g)"
  shows "same_but_quiet g (quieten_all lp g)
       \<and> qset (quieten_all lp g)
           = qset g \<union> {x. x < length (heap g) \<and> (\<exists>p\<in>set (visited g). quiet_trigger lp g p x)}"
proof -
  let ?g1 = "fold (\<lambda>p g'. quieten lp g' p) (map snd (Nodes g)) g"
  let ?g2 = "fold (\<lambda>p g'. quieten lp g' p) (map snd (TypeNodes ?g1)) ?g1"
  have v1: "\<forall>p\<in>set (map snd (Nodes g)). p < length (heap g)" using v by (simp add: visited_def)
  from fold_quieten[OF v1, of lp] have s1: "same_but_quiet g ?g1"
    and q1: "qset ?g1 = qset g \<union> {x. x < length (heap g) \<and> (\<exists>p\<in>set (map snd (Nodes g)). quiet_trigger lp g p x)}"
    by simp_all
  have tn: "TypeNodes ?g1 = TypeNodes g" and len: "length (heap ?g1) = length (heap g)"
    using s1 by (simp_all add: same_but_quiet_def)
  have v2: "\<forall>p\<in>set (map snd (TypeNodes ?g1)). p < length (heap ?g1)"
    using v tn len by (simp add: visited_def)
  from fold_quieten[OF v2, of lp] have s2: "same_but_quiet ?g1 ?g2"
    and q2: "qset ?g2 = qset ?g1 \<union> {x. x < length (heap ?g1) \<and> (\<exists>p\<in>set (map snd (TypeNodes ?g1)). quiet_trigger lp ?g1 p x)}"
    by simp_all
  have tr: "\<And>q x. q \<in> set (map snd (TypeNodes g)) \<Longrightarrow> quiet_trigger lp ?g1 q x = quiet_trigger lp g q x"
    using quiet_trigger_same[OF s1] v by (simp add: visited_def)
  have e: "quieten_all lp g = ?g2" by (simp add: quieten_all_def Let_def)
  have a: "same_but_quiet g (quieten_all lp g)" unfolding e using s1 s2 by (rule same_but_quiet_trans)
  have b: "qset (quieten_all lp g)
           = qset g \<union> {x. x < length (heap g) \<and> (\<exists>p\<in>set (visited g). quiet_trigger lp g p x)}"
    unfolding e q2 q1 using tr by (auto simp: tn len visited_def)
  show ?thesis using a b by (rule conjI)
qed

text \<open>
  Claim C3, amended.  Run on a graph in which no node is quiet, the quieting pass leaves
  the flag \<open>seen\<close> of every node as it is, and afterwards a node is quiet exactly when the
  pass has visited an unseen node that is this node and holds a variable that is not a
  field, or that holds a named type one of whose methods has this node as the node of its
  function, or that holds a struct one of whose fields has this node.  Only the visited
  node is tested for \<open>seen\<close>: the node of a method or of a field that becomes quiet may
  itself be seen.
\<close>

theorem quieting_characterised:
  assumes v: "list_all (\<lambda>p. p < length (heap g)) (visited g)"
    and nq: "list_all (\<lambda>n. \<not> quiet n) (heap g)"
    and x: "x < length (heap g)"
  shows "seen (heap (quieten_all lp g) ! x) = seen (heap g ! x)
       \<and> (quiet (heap (quieten_all lp g) ! x) \<longleftrightarrow>
            (\<exists>p\<in>set (visited g). \<not> seen (heap g ! p)
               \<and> ((\<exists>v. obj (heap g ! p) = IObject (OVar v) \<and> \<not> IsField v \<and> x = p)
                  \<or> (\<exists>tn u ms m. obj (heap g ! p) = IType (TNamed tn u ms) \<and> m \<in> set ms
                        \<and> nodeMaybe g (IFunction (FuncValue (SSA lp) m)) = Some x)
                  \<or> (\<exists>fs f. obj (heap g ! p) = IType (TStruct fs) \<and> f \<in> set fs
                        \<and> nodeMaybe g (IObject (OVar f)) = Some x))))"
proof -
  have v': "\<forall>p\<in>set (visited g). p < length (heap g)" using v by (simp add: list_all_iff)
  have q0: "qset g = {}" using nq by (auto simp: qset_def list_all_length)
  from quieten_all_result[OF v', of lp]
  have s: "same_but_quiet g (quieten_all lp g)"
    and q: "qset (quieten_all lp g)
           = qset g \<union> {x. x < length (heap g) \<and> (\<exists>p\<in>set (visited g). quiet_trigger lp g p x)}"
    by simp_all
  have len: "length (heap (quieten_all lp g)) = length (heap g)"
    using s by (simp add: same_but_quiet_def)
  have a: "seen (heap (quieten_all lp g) ! x) = seen (heap g ! x)"
    using s x by (simp add: same_but_quiet_def)
  have "quiet (heap (quieten_all lp g) ! x) \<longleftrightarrow> x \<in> qset (quieten_all lp g)"
    using x len by (simp add: qset_def)
  also have "\<dots> \<longleftrightarrow> (\<exists>p\<in>set (visited g). quiet_trigger lp g p x)"
    using q q0 x by simp
  finally have b: "quiet (heap (quieten_all lp g) ! x)
      \<longleftrightarrow> (\<exists>p\<in>set (visited g). quiet_trigger lp g p x)" .
  show ?thesis using a b unfolding quiet_trigger_def by simp
qed

definition quiet_graph :: graph where
  "quiet_graph = report_graph\<lparr>heap := map (\<lambda>n. n\<lparr>quiet := False\<rparr>) (heap report_graph)\<rparr>"

theorem quieting_characterised_witness:
  "quiet (heap (quieten_all report_pkg quiet_graph) ! 3)
   \<and> \<not> quiet (heap (quieten_all report_pkg quiet_graph) ! 1)
   \<and> seen (heap (quieten_all report_pkg quiet_graph) ! 3) = seen (heap quiet_graph ! 3)"
proof -
  have v: "list_all (\<lambda>p. p < length (heap quiet_graph)) (visited quiet_graph)"
    by (simp add: quiet_graph_def report_graph_def visited_def)
  have nq: "list_all (\<lambda>n. \<not> quiet n) (heap quiet_graph)"
    by (simp add: quiet_graph_def report_graph_def)
  have x3: "3 < length (heap quiet_graph)" and x1: "1 < length (heap quiet_graph)"
    by (simp_all add: quiet_graph_def report_graph_def)
  have q3: "quiet (heap (quieten_all report_pkg quiet_graph) ! 3)"
    by (simp add: quieten_all_def quieten_def set_quiet_def nodeMaybe_def quiet_graph_def
        report_graph_def report_pkg_def)
  have q1: "\<not> quiet (heap (quieten_all report_pkg quiet_graph) ! 1)"
    by (simp add: quieten_all_def quieten_def set_quiet_def nodeMaybe_def quiet_graph_def
        report_graph_def report_pkg_def)
  show ?thesis
    using quieting_characterised[OF v nq x3, of report_pkg] q3 q1 by simp
qed

text \<open>
  The claim as stated fails on the package

  \<^verbatim>\<open>package p; type t struct{ f int }; var x t; func F() int { return x.f }\<close>

  \<open>F\<close> is exported and reads the field \<open>f\<close>, so \<open>f\<close> is seen; nothing uses the type \<open>t\<close> or
  its struct, so the struct is unseen, and quieting it makes the node of \<open>f\<close> quiet.
\<close>

definition ex_tu :: typeutil where
  "ex_tu = \<lparr>MethodSet = (\<lambda>t. []), Lookup = (\<lambda>t p n. None), implements = (\<lambda>t i. False)\<rparr>"

definition ex_f :: gvar where "ex_f = NewVar ''f'' (Some ''p'') 3 True False (TBasic KInt)"
definition ex_tn :: typename where "ex_tn = NewTypeName ''t'' (Some ''p'') 2"
definition ex_t :: gtype where "ex_t = TNamed ex_tn (TStruct [ex_f]) []"
definition ex_sig :: gsig where
  "ex_sig = NewSignature None [] [NewVar [] (Some ''p'') 0 False False (TBasic KInt)]"
definition ex_Fobj :: gfunc where "ex_Fobj = NewFunc ''F'' (Some ''p'') 5 1 ex_sig"
definition ex_F :: ssa_function where
  "ex_F = Function 1 ''F'' (Some ex_Fobj) 5 (Some ''p'') ex_sig (Some [6, 7])"
definition ex_init :: ssa_function where
  "ex_init = Function 2 ''init'' None 0 (Some ''p'') (NewSignature None [] []) None"

definition ex_ssa :: ssa_package where
  "ex_ssa = \<lparr>Pkg = Some ''p'', PkgName = ''p'',
             FuncValue = (\<lambda>f. if f = ex_Fobj then Some ex_F else None),
             Members = [MType (Some ex_tn) ex_t, MGlobal, MFunction ex_F, MFunction ex_init],
             Blocks = (\<lambda>fn. if fn = ex_F then
                          [[SsaFieldAddr (TPointer (TBasic KInt)) (TPointer ex_t) 0,
                            SsaValue (TBasic KInt), SsaReturn [1]]]
                        else []),
             AnonFuncs = (\<lambda>fn. []), Value = (\<lambda>v. VOther)\<rparr>"

definition ex_info :: types_info where
  "ex_info = \<lparr>Defs = [(1, Some (OTypeName ex_tn)), (2, Some (OVar ex_f)), (4, Some (OFunc ex_Fobj))],
              Uses = [(6, OVar (NewVar ''x'' (Some ''p'') 4 False False ex_t)), (7, OVar ex_f)],
              TypeNameType = (\<lambda>n. ex_t)\<rparr>"

definition ex_lp :: lint_pkg where
  "ex_lp = \<lparr>SSA = ex_ssa, Types = Some ''p'', TypesInfo = ex_info\<rparr>"

definition ex_job :: lint_job where "ex_job = \<lparr>InitialFunctions = [ex_F, ex_init]\<rparr>"

definition ex_prog :: lint_program where
  "ex_prog = \<lparr>InitialPackages = [ex_lp], Fset_Position = (\<lambda>p. (''p.go'', p, 1))\<rparr>"

definition ex_graph0 :: graph where
  "ex_graph0 = (NewGraph ex_ssa ex_tu)\<lparr>job := ex_job, scopes := Check_scopes (InitialFunctions ex_job)\<rparr>"

theorem quieting_seen_counterexample:
  "(case entry 10 ex_info ex_graph0 of
      Inl e \<Rightarrow> False
    | Inr g \<Rightarrow>
        seen (heap (quieten_all ex_lp (color g (Root g))) ! 4)
        \<and> quiet (heap (quieten_all ex_lp (color g (Root g))) ! 4)
        \<and> obj (heap (quieten_all ex_lp (color g (Root g))) ! 4) = IObject (OVar ex_f))"
  by code_simp

section \<open>How the graph grows\<close>

text \<open>
  Every step of the analysis only adds to the graph: nodes are appended to the heap, the
  two node maps gain keys, and a node gains edges. \<open>wf_graph\<close> collects what the
  construction keeps true of a graph before \<open>color\<close> runs, and \<open>ext g g'\<close>
  says that \<open>g'\<close> is a later state of \<open>g\<close>.
\<close>

definition wf_graph :: "graph \<Rightarrow> bool" where
  "wf_graph g \<longleftrightarrow>
     Root g < length (heap g)
     \<and> wf_edges g
     \<and> fresh g
     \<and> list_all (\<lambda>n. \<not> quiet n) (heap g)
     \<and> list_all (\<lambda>p. p < length (heap g)) (visited g)"

definition ext :: "graph \<Rightarrow> graph \<Rightarrow> bool" where
  "ext g g' \<longleftrightarrow>
     pkg g' = pkg g \<and> msCache g' = msCache g \<and> job g' = job g \<and> scopes g' = scopes g
     \<and> Root g' = Root g
     \<and> length (heap g) \<le> length (heap g')
     \<and> (\<forall>x n. nodeMaybe g x = Some n \<longrightarrow> nodeMaybe g' x = Some n)
     \<and> (\<forall>p<length (heap g). set (map fst (used (heap g ! p)))
                               \<subseteq> set (map fst (used (heap g' ! p))))
     \<and> set (seenTypes g) \<subseteq> set (seenTypes g')
     \<and> set (seenFns g) \<subseteq> set (seenFns g')"

lemma ext_refl: "ext g g"
  by (simp add: ext_def)

lemma ext_trans:
  assumes a: "ext g g1" and b: "ext g1 g2"
  shows "ext g g2"
proof -
  have l: "length (heap g) \<le> length (heap g1)" using a by (simp add: ext_def)
  have u: "\<forall>p<length (heap g). set (map fst (used (heap g ! p)))
                               \<subseteq> set (map fst (used (heap g2 ! p)))"
  proof (intro allI impI)
    fix p assume p: "p < length (heap g)"
    then have "set (map fst (used (heap g ! p))) \<subseteq> set (map fst (used (heap g1 ! p)))"
      using a by (simp add: ext_def)
    moreover have "set (map fst (used (heap g1 ! p))) \<subseteq> set (map fst (used (heap g2 ! p)))"
      using b p l by (simp add: ext_def)
    ultimately show "set (map fst (used (heap g ! p))) \<subseteq> set (map fst (used (heap g2 ! p)))"
      by (rule subset_trans)
  qed
  have n: "\<forall>x n. nodeMaybe g x = Some n \<longrightarrow> nodeMaybe g2 x = Some n"
    using a b by (simp add: ext_def)
  have r: "pkg g2 = pkg g \<and> msCache g2 = msCache g \<and> job g2 = job g \<and> scopes g2 = scopes g
     \<and> Root g2 = Root g \<and> length (heap g) \<le> length (heap g2)
     \<and> set (seenTypes g) \<subseteq> set (seenTypes g2) \<and> set (seenFns g) \<subseteq> set (seenFns g2)"
    using a b unfolding ext_def by (metis (no_types, lifting) order_trans)
  show ?thesis unfolding ext_def using r u n by simp
qed

lemma visited_in_range:
  "wf_graph g \<Longrightarrow> p \<in> set (visited g) \<Longrightarrow> p < length (heap g)"
  by (simp add: wf_graph_def list_all_iff)

lemma nodeMaybe_visited: "nodeMaybe g x = Some n \<Longrightarrow> n \<in> set (visited g)"
proof -
  assume a: "nodeMaybe g x = Some n"
  show ?thesis
  proof (cases x)
    case (IType t)
    with a have "(t, n) \<in> set (TypeNodes g)" by (simp add: nodeMaybe_def map_of_SomeD)
    then have "n \<in> snd ` set (TypeNodes g)" by force
    then show ?thesis by (simp add: visited_def)
  next
    case INil
    with a have "(x, n) \<in> set (Nodes g)" by (simp add: nodeMaybe_def map_of_SomeD)
    then have "n \<in> snd ` set (Nodes g)" by force
    then show ?thesis by (simp add: visited_def)
  next
    case (IObject ob)
    with a have "(x, n) \<in> set (Nodes g)" by (simp add: nodeMaybe_def map_of_SomeD)
    then have "n \<in> snd ` set (Nodes g)" by force
    then show ?thesis by (simp add: visited_def)
  next
    case (IFunction f)
    with a have "(x, n) \<in> set (Nodes g)" by (simp add: nodeMaybe_def map_of_SomeD)
    then have "n \<in> snd ` set (Nodes g)" by force
    then show ?thesis by (simp add: visited_def)
  qed
qed

lemma wf_graph_nodeMaybe:
  "wf_graph g \<Longrightarrow> nodeMaybe g x = Some n \<Longrightarrow> n < length (heap g)"
  using nodeMaybe_visited visited_in_range by blast

lemma node_old:
  "nodeMaybe g x = Some n \<Longrightarrow> node g x = ((n, False), g)"
  by (cases x) (simp_all add: node_def nodeMaybe_def)

definition fresh_node :: "graph \<Rightarrow> iface \<Rightarrow> node" where
  "fresh_node g x = \<lparr>obj = x, nid = nodeCounter g + 1, used = [], seen = False, quiet = False\<rparr>"

lemma node_new:
  assumes "nodeMaybe g x = None"
  shows "fst (node g x) = (length (heap g), True)"
    and "heap (snd (node g x)) = heap g @ [fresh_node g x]"
    and "nodeMaybe (snd (node g x)) y = (if y = x then Some (length (heap g)) else nodeMaybe g y)"
    and "set (visited (snd (node g x))) = insert (length (heap g)) (set (visited g))"
    and "pkg (snd (node g x)) = pkg g" "msCache (snd (node g x)) = msCache g"
    and "job (snd (node g x)) = job g" "scopes (snd (node g x)) = scopes g"
    and "Root (snd (node g x)) = Root g"
    and "seenTypes (snd (node g x)) = seenTypes g" "seenFns (snd (node g x)) = seenFns g"
  using assms
  by (cases x; cases y;
      simp add: node_def nodeMaybe_def newNode_def Let_def fresh_node_def visited_def
        map_add_def split: option.splits)+

lemma node_ext: "ext g (snd (node g x))"
proof (cases "nodeMaybe g x")
  case None
  have a: "\<forall>y n. nodeMaybe g y = Some n \<longrightarrow> nodeMaybe (snd (node g x)) y = Some n"
    using None by (auto simp: node_new(3)[OF None])
  have b: "\<forall>p<length (heap g). set (map fst (used (heap g ! p)))
             \<subseteq> set (map fst (used (heap (snd (node g x)) ! p)))"
    by (simp add: node_new(2)[OF None] nth_append)
  show ?thesis
    unfolding ext_def using a b by (simp add: node_new[OF None])
next
  case (Some n)
  then show ?thesis by (simp add: node_old ext_refl)
qed

lemma wf_edges_append:
  assumes "wf_edges g" "heap g' = heap g @ [n]" "used n = []"
  shows "wf_edges g'"
proof -
  have "\<forall>m\<in>set (heap g). \<forall>v\<in>set (used m). fst v < length (heap g)"
    using assms(1) by (simp add: wf_edges_def list_all_iff)
  then have "\<forall>m\<in>set (heap g). \<forall>v\<in>set (used m). fst v < Suc (length (heap g))"
    using less_SucI by blast
  then show ?thesis using assms(2,3) by (simp add: wf_edges_def list_all_iff)
qed

lemma node_wf:
  assumes wf: "wf_graph g"
  shows "wf_graph (snd (node g x))"
proof (cases "nodeMaybe g x")
  case None
  let ?g = "snd (node g x)"
  have h: "heap ?g = heap g @ [fresh_node g x]" by (rule node_new(2)[OF None])
  have a: "Root ?g < length (heap ?g)" using wf by (simp add: h node_new(9)[OF None] wf_graph_def)
  have b: "wf_edges ?g"
  proof (rule wf_edges_append)
    show "wf_edges g" using wf by (simp add: wf_graph_def)
    show "heap ?g = heap g @ [fresh_node g x]" by (rule h)
    show "used (fresh_node g x) = []" by (simp add: fresh_node_def)
  qed
  have c: "fresh ?g" using wf by (simp add: fresh_def h wf_graph_def fresh_node_def)
  have d: "list_all (\<lambda>n. \<not> quiet n) (heap ?g)" using wf by (simp add: h wf_graph_def fresh_node_def)
  have "\<forall>p\<in>set (visited ?g). p < length (heap ?g)"
    using wf by (auto simp: node_new(4)[OF None] h dest: visited_in_range)
  then have e: "list_all (\<lambda>p. p < length (heap ?g)) (visited ?g)" by (simp add: list_all_iff)
  show ?thesis unfolding wf_graph_def using a b c d e by simp
next
  case (Some n)
  then show ?thesis using wf by (simp add: node_old)
qed

lemma node_has: "nodeMaybe (snd (node g x)) x \<noteq> None"
  by (cases "nodeMaybe g x") (auto simp: node_new(3) node_old)

subsection \<open>see\<close>

lemma see_cases: "see x g = Inr g' \<Longrightarrow> g' = g \<or> g' = snd (node g x)"
  by (auto simp: see_def split: if_splits)

lemma see_ext: "see x g = Inr g' \<Longrightarrow> ext g g'"
  using see_cases[of x g g'] by (auto simp: ext_refl node_ext)

lemma see_wf: "wf_graph g \<Longrightarrow> see x g = Inr g' \<Longrightarrow> wf_graph g'"
  using see_cases[of x g g'] by (auto simp: node_wf)

lemma see_has:
  "see x g = Inr g' \<Longrightarrow> \<not> isIrrelevant x \<Longrightarrow> \<not> foreign g x \<Longrightarrow> nodeMaybe g' x \<noteq> None"
  using node_has[of g x] by (auto simp: see_def split: if_splits)

lemma see_no_new_node_panic: "see x g \<noteq> Inl AssertNoNewNode"
  by (simp add: see_def)

subsection \<open>use\<close>

definition add_edge :: "graph \<Rightarrow> nat \<Rightarrow> nat \<Rightarrow> string \<Rightarrow> graph" where
  "add_edge g t u r = g\<lparr>heap := (heap g)[t := snd (Node_use (heap g ! t) u r)]\<rparr>"

lemma Node_use_keys:
  "fst ` set (used (snd (Node_use n u r))) = insert u (fst ` set (used n))"
proof (cases "map_of (used n) u = Some r")
  case True
  then have "(u, r) \<in> set (used n)" by (rule map_of_SomeD)
  then have "u \<in> fst ` set (used n)" by force
  then show ?thesis using True by (auto simp: Node_use_def)
next
  case False
  then show ?thesis by (simp add: Node_use_def dom_update)
qed

lemma Node_use_flags:
  "obj (snd (Node_use n u r)) = obj n" "seen (snd (Node_use n u r)) = seen n"
  "quiet (snd (Node_use n u r)) = quiet n"
  by (simp_all add: Node_use_def)

lemma add_edge_fields:
  "pkg (add_edge g t u r) = pkg g" "msCache (add_edge g t u r) = msCache g"
  "job (add_edge g t u r) = job g" "scopes (add_edge g t u r) = scopes g"
  "Root (add_edge g t u r) = Root g" "Nodes (add_edge g t u r) = Nodes g"
  "TypeNodes (add_edge g t u r) = TypeNodes g"
  "seenTypes (add_edge g t u r) = seenTypes g" "seenFns (add_edge g t u r) = seenFns g"
  "length (heap (add_edge g t u r)) = length (heap g)"
  "nodeMaybe (add_edge g t u r) x = nodeMaybe g x"
  "visited (add_edge g t u r) = visited g"
  by (simp_all add: add_edge_def nodeMaybe_def visited_def split: iface.splits)

lemma add_edge_used:
  "p < length (heap g) \<Longrightarrow>
   fst ` set (used (heap (add_edge g t u r) ! p))
     = (if p = t then insert u (fst ` set (used (heap g ! p)))
        else fst ` set (used (heap g ! p)))"
  by (simp add: add_edge_def nth_update_any Node_use_keys)

lemma add_edge_ext: "ext g (add_edge g t u r)"
  unfolding ext_def by (auto simp: add_edge_fields add_edge_used)

lemma add_edge_wf:
  assumes wf: "wf_graph g" and t: "t < length (heap g)" and u: "u < length (heap g)"
  shows "wf_graph (add_edge g t u r)"
proof -
  let ?g = "add_edge g t u r"
  have e: "wf_edges g" using wf by (simp add: wf_graph_def)
  have "\<forall>p<length (heap ?g). \<forall>v\<in>set (successors ?g p). v < length (heap ?g)"
  proof (intro allI impI ballI)
    fix p v assume p: "p < length (heap ?g)" and v: "v \<in> set (successors ?g p)"
    from p have p': "p < length (heap g)" by (simp add: add_edge_fields)
    from v have "v \<in> set (map fst (used (heap ?g ! p)))" by (simp add: successors_def)
    then have "v = u \<or> v \<in> set (successors g p)"
      using add_edge_used[OF p', of t u r] by (auto simp: successors_def split: if_splits)
    then show "v < length (heap ?g)"
      using u e p' by (auto simp: add_edge_fields wf_edges_iff)
  qed
  then have a: "wf_edges ?g" by (simp add: wf_edges_iff)
  have b: "fresh ?g" using wf
    by (simp add: fresh_def wf_graph_def list_all_length add_edge_def nth_update_any Node_use_flags)
  have c: "list_all (\<lambda>n. \<not> quiet n) (heap ?g)" using wf
    by (simp add: wf_graph_def list_all_length add_edge_def nth_update_any Node_use_flags)
  show ?thesis unfolding wf_graph_def using wf a b c
    by (simp add: add_edge_fields) (simp add: wf_graph_def)
qed

lemma add_edge_edge: "t < length (heap g) \<Longrightarrow> (t, u) \<in> edges (add_edge g t u r)"
  using add_edge_used[of t g t u r] by (simp add: edges_def successors_def add_edge_fields)

lemma use_cases:
  assumes "use a b r g = Inr g'"
  shows "g' = g
       \<or> (\<not> isIrrelevant a \<and> \<not> foreign g a \<and> \<not> foreign g b
          \<and> (\<exists>u t. nodeMaybe g a = Some u
                  \<and> (if b = INil then t = Root g else nodeMaybe g b = Some t)
                  \<and> g' = add_edge g t u r))"
proof (cases "isIrrelevant a \<or> foreign g a \<or> foreign g b")
  case True
  then show ?thesis using assms by (auto simp: use_def split: if_splits)
next
  case False
  note nf = this
  show ?thesis
  proof (cases "nodeMaybe g a")
    case None
    then have "snd (fst (node g a))" by (simp add: node_new(1))
    then have "use a b r g = Inl AssertNoNewNode \<or> use a b r g = Inl AssertNotNil
             \<or> use a b r g = Inl AssertFuncValue"
      using nf by (auto simp: use_def split_beta)
    then show ?thesis using assms by auto
  next
    case (Some u)
    note ua = this
    show ?thesis
    proof (cases "b = INil")
      case True
      then show ?thesis using assms nf ua
        by (auto simp: use_def node_old add_edge_def split: if_splits)
    next
      case False
      show ?thesis
      proof (cases "nodeMaybe g b")
        case None
        then have "snd (fst (node g b))" by (simp add: node_new(1))
        then have "use a b r g = Inl AssertNoNewNode \<or> use a b r g = Inl AssertNotNil
             \<or> use a b r g = Inl AssertFuncValue"
          using nf ua False by (auto simp: use_def node_old split_beta)
        then show ?thesis using assms by auto
      next
        case (Some t)
        then show ?thesis using assms nf ua False
          by (auto simp: use_def node_old add_edge_def split: if_splits)
      qed
    qed
  qed
qed

lemma use_ext: "use a b r g = Inr g' \<Longrightarrow> ext g g'"
  using use_cases[of a b r g g'] by (auto simp: ext_refl add_edge_ext)

lemma use_wf:
  assumes wf: "wf_graph g" and u: "use a b r g = Inr g'"
  shows "wf_graph g'"
proof -
  from use_cases[OF u] show ?thesis
  proof
    assume "g' = g" then show ?thesis using wf by simp
  next
    assume "\<not> isIrrelevant a \<and> \<not> foreign g a \<and> \<not> foreign g b
          \<and> (\<exists>u t. nodeMaybe g a = Some u
                  \<and> (if b = INil then t = Root g else nodeMaybe g b = Some t)
                  \<and> g' = add_edge g t u r)"
    then obtain u t where ua: "nodeMaybe g a = Some u"
      and tb: "if b = INil then t = Root g else nodeMaybe g b = Some t"
      and g': "g' = add_edge g t u r" by blast
    have ul: "u < length (heap g)" using wf ua by (rule wf_graph_nodeMaybe)
    have tl: "t < length (heap g)"
      using tb wf wf_graph_nodeMaybe[OF wf, of b t] by (auto simp: wf_graph_def split: if_splits)
    show ?thesis unfolding g' using wf tl ul by (rule add_edge_wf)
  qed
qed

lemma use_edge:
  assumes wf: "wf_graph g" and u: "use a b r g = Inr g'"
    and na: "\<not> isIrrelevant a" "\<not> foreign g a" "\<not> foreign g b" "b \<noteq> INil"
  shows "\<exists>u t. nodeMaybe g' a = Some u \<and> nodeMaybe g' b = Some t \<and> (t, u) \<in> edges g'"
proof -
  from use_cases[OF u] have
    "(\<exists>u t. nodeMaybe g a = Some u
                  \<and> (if b = INil then t = Root g else nodeMaybe g b = Some t)
                  \<and> g' = add_edge g t u r) \<or> g' = g" by blast
  then show ?thesis
  proof
    assume "\<exists>u t. nodeMaybe g a = Some u
                  \<and> (if b = INil then t = Root g else nodeMaybe g b = Some t)
                  \<and> g' = add_edge g t u r"
    then obtain u t where ua: "nodeMaybe g a = Some u" and tb: "nodeMaybe g b = Some t"
      and g': "g' = add_edge g t u r" using na(4) by auto
    have tl: "t < length (heap g)" using wf tb by (rule wf_graph_nodeMaybe)
    show ?thesis using ua tb add_edge_edge[OF tl, of u r] by (auto simp: g' add_edge_fields)
  next
    assume same: "g' = g"
    show ?thesis
    proof (cases "nodeMaybe g a")
      case None
      then have "snd (fst (node g a))" by (simp add: node_new(1))
      then have "use a b r g = Inl AssertNoNewNode \<or> use a b r g = Inl AssertNotNil
             \<or> use a b r g = Inl AssertFuncValue"
        using na by (auto simp: use_def split_beta)
      then show ?thesis using u by auto
    next
      case (Some ua)
      show ?thesis
      proof (cases "nodeMaybe g b")
        case None
        then have "snd (fst (node g b))" by (simp add: node_new(1))
        then have "use a b r g = Inl AssertNoNewNode \<or> use a b r g = Inl AssertNotNil
             \<or> use a b r g = Inl AssertFuncValue"
          using na Some by (auto simp: use_def node_old split_beta)
        then show ?thesis using u by auto
      next
        case (Some t)
        note tb = this
        have tl: "t < length (heap g)" using wf tb by (rule wf_graph_nodeMaybe)
        from u na \<open>nodeMaybe g a = Some ua\<close> tb have "g' = add_edge g t ua r"
          by (auto simp: use_def node_old add_edge_def split: if_splits)
        then show ?thesis
          using \<open>nodeMaybe g a = Some ua\<close> tb add_edge_edge[OF tl, of ua r]
          by (auto simp: add_edge_fields)
      qed
    qed
  qed
qed

lemma use_no_new_node_panic:
  assumes "isIrrelevant a \<or> foreign g a \<or> foreign g b
           \<or> (nodeMaybe g a \<noteq> None \<and> (b = INil \<or> nodeMaybe g b \<noteq> None))"
  shows "use a b r g \<noteq> Inl AssertNoNewNode"
proof (cases "isIrrelevant a \<or> foreign g a \<or> foreign g b")
  case True
  then show ?thesis by (auto simp: use_def)
next
  case False
  with assms obtain u where ua: "nodeMaybe g a = Some u" by auto
  show ?thesis
  proof (cases "b = INil")
    case True
    then show ?thesis using ua by (simp add: use_def node_old)
  next
    case False
    with assms \<open>\<not> (isIrrelevant a \<or> foreign g a \<or> foreign g b)\<close>
    obtain t where "nodeMaybe g b = Some t" by auto
    then show ?thesis using ua by (simp add: use_def node_old)
  qed
qed

subsection \<open>A calculus for steps that only add\<close>

text \<open>
  \<open>grows_on pr f\<close>: a step \<open>f\<close> over a state whose graph is \<open>pr s\<close>
  either panics or returns a well-formed later graph. The rules below follow the shape of
  the walkers: sequences, loops, conditionals and the case distinctions on the data.
\<close>

definition grows_on :: "('s \<Rightarrow> graph) \<Rightarrow> ('s \<Rightarrow> panic + 's) \<Rightarrow> bool" where
  "grows_on pr f \<longleftrightarrow>
     (\<forall>s s'. wf_graph (pr s) \<longrightarrow> f s = Inr s' \<longrightarrow> ext (pr s) (pr s') \<and> wf_graph (pr s'))"

named_theorems grows_intros

lemma grows_onI:
  "(\<And>s s'. wf_graph (pr s) \<Longrightarrow> f s = Inr s' \<Longrightarrow> ext (pr s) (pr s') \<and> wf_graph (pr s'))
   \<Longrightarrow> grows_on pr f"
  by (simp add: grows_on_def)

lemma grows_onD:
  "grows_on pr f \<Longrightarrow> wf_graph (pr s) \<Longrightarrow> f s = Inr s' \<Longrightarrow> ext (pr s) (pr s') \<and> wf_graph (pr s')"
  by (simp add: grows_on_def)

lemma grows_skip [grows_intros]: "grows_on pr skip"
  by (simp add: grows_on_def skip_def ext_refl)

lemma grows_Inr [grows_intros]: "grows_on pr Inr"
  by (simp add: grows_on_def ext_refl)

lemma grows_Inr' [grows_intros]: "grows_on pr (\<lambda>s. Inr s)"
  by (simp add: grows_on_def ext_refl)

lemma grows_Inl [grows_intros]: "grows_on pr (\<lambda>s. Inl e)"
  by (simp add: grows_on_def)

lemma grows_seq:
  "(\<And>f. f \<in> set fs \<Longrightarrow> grows_on pr f) \<Longrightarrow> grows_on pr (seq fs)"
proof (induction fs)
  case Nil
  show ?case by (simp add: grows_on_def ext_refl)
next
  case (Cons f fs)
  have f: "grows_on pr f" using Cons(2) by simp
  have r: "grows_on pr (seq fs)" using Cons by simp
  show ?case
  proof (rule grows_onI)
    fix s s' assume wf: "wf_graph (pr s)" and run: "seq (f # fs) s = Inr s'"
    then obtain s1 where s1: "f s = Inr s1" and s2: "seq fs s1 = Inr s'"
      by (auto split: sum.splits)
    from grows_onD[OF f wf s1] have a: "ext (pr s) (pr s1)" and b: "wf_graph (pr s1)" by simp_all
    from grows_onD[OF r b s2] have c: "ext (pr s1) (pr s')" and d: "wf_graph (pr s')" by simp_all
    show "ext (pr s) (pr s') \<and> wf_graph (pr s')" using ext_trans[OF a c] d by simp
  qed
qed

lemma grows_seq_Nil [grows_intros]: "grows_on pr (seq [])"
  by (rule grows_seq) simp

lemma grows_seq_Cons [grows_intros]:
  "grows_on pr f \<Longrightarrow> grows_on pr (seq fs) \<Longrightarrow> grows_on pr (seq (f # fs))"
proof (rule grows_onI)
  fix s s'
  assume f: "grows_on pr f" and r: "grows_on pr (seq fs)"
    and wf: "wf_graph (pr s)" and run: "seq (f # fs) s = Inr s'"
  then obtain s1 where s1: "f s = Inr s1" and s2: "seq fs s1 = Inr s'"
    by (auto split: sum.splits)
  from grows_onD[OF f wf s1] have a: "ext (pr s) (pr s1)" and b: "wf_graph (pr s1)" by simp_all
  from grows_onD[OF r b s2] have c: "ext (pr s1) (pr s')" and d: "wf_graph (pr s')" by simp_all
  show "ext (pr s) (pr s') \<and> wf_graph (pr s')" using ext_trans[OF a c] d by simp
qed

lemma grows_if [grows_intros]:
  "grows_on pr f \<Longrightarrow> grows_on pr h \<Longrightarrow> grows_on pr (if c then f else h)"
  by simp

lemma grows_case_option [grows_intros]:
  "grows_on pr f \<Longrightarrow> (\<And>x. grows_on pr (h x)) \<Longrightarrow>
   grows_on pr (case q of None \<Rightarrow> f | Some x \<Rightarrow> h x)"
  by (cases q) simp_all

lemma grows_case_gtype [grows_intros]:
  "(\<And>k. grows_on pr (f1 k)) \<Longrightarrow> (\<And>l e. grows_on pr (f2 l e)) \<Longrightarrow>
   (\<And>e. grows_on pr (f3 e)) \<Longrightarrow> (\<And>e. grows_on pr (f4 e)) \<Longrightarrow>
   (\<And>e. grows_on pr (f5 e)) \<Longrightarrow> (\<And>k e. grows_on pr (f6 k e)) \<Longrightarrow>
   (\<And>vs. grows_on pr (f7 vs)) \<Longrightarrow> (\<And>sg. grows_on pr (f8 sg)) \<Longrightarrow>
   (\<And>ms. grows_on pr (f9 ms)) \<Longrightarrow> (\<And>fs. grows_on pr (f10 fs)) \<Longrightarrow>
   (\<And>tn u ms. grows_on pr (f11 tn u ms)) \<Longrightarrow>
   grows_on pr (case_gtype f1 f2 f3 f4 f5 f6 f7 f8 f9 f10 f11 T)"
  by (cases T) simp_all

lemma grows_case_basic_kind [grows_intros]:
  "grows_on pr f1 \<Longrightarrow> grows_on pr f2 \<Longrightarrow> grows_on pr f3 \<Longrightarrow> grows_on pr f4 \<Longrightarrow>
   grows_on pr f5 \<Longrightarrow> grows_on pr f6 \<Longrightarrow>
   grows_on pr (case_basic_kind f1 f2 f3 f4 f5 f6 k)"
  by (cases k) simp_all

lemma grows_case_call_common [grows_intros]:
  "(\<And>v. grows_on pr (f1 v)) \<Longrightarrow> (\<And>m. grows_on pr (f2 m)) \<Longrightarrow>
   grows_on pr (case_call_common f1 f2 c)"
  by (cases c) simp_all

lemma grows_case_ssa_value [grows_intros]:
  "(\<And>f. grows_on pr (f1 f)) \<Longrightarrow> (\<And>w. grows_on pr (f2 w)) \<Longrightarrow> grows_on pr f3 \<Longrightarrow>
   (\<And>es. grows_on pr (f4 es)) \<Longrightarrow> grows_on pr f5 \<Longrightarrow>
   grows_on pr (case_ssa_value f1 f2 f3 f4 f5 w)"
  by (cases w) simp_all

lemma grows_case_instruction [grows_intros]:
  "(\<And>T X i. grows_on pr (f1 T X i)) \<Longrightarrow> (\<And>T X i. grows_on pr (f2 T X i)) \<Longrightarrow>
   grows_on pr f3 \<Longrightarrow> (\<And>T c. grows_on pr (f4 T c)) \<Longrightarrow> (\<And>rs. grows_on pr (f5 rs)) \<Longrightarrow>
   (\<And>T X. grows_on pr (f6 T X)) \<Longrightarrow> (\<And>T. grows_on pr (f7 T)) \<Longrightarrow>
   (\<And>T. grows_on pr (f8 T)) \<Longrightarrow> grows_on pr f9 \<Longrightarrow> (\<And>T X. grows_on pr (f10 T X)) \<Longrightarrow>
   (\<And>T A. grows_on pr (f11 T A)) \<Longrightarrow> (\<And>T v. grows_on pr (f12 T v)) \<Longrightarrow>
   (\<And>T. grows_on pr (f13 T)) \<Longrightarrow> grows_on pr f14 \<Longrightarrow> grows_on pr f15 \<Longrightarrow>
   grows_on pr f16 \<Longrightarrow>
   grows_on pr (case_instruction f1 f2 f3 f4 f5 f6 f7 f8 f9 f10 f11 f12 f13 f14 f15 f16 i)"
  by (cases i) simp_all

lemma grows_case_member [grows_intros]:
  "grows_on pr f1 \<Longrightarrow> grows_on pr f2 \<Longrightarrow> (\<And>f. grows_on pr (f3 f)) \<Longrightarrow>
   (\<And>ob T. grows_on pr (f4 ob T)) \<Longrightarrow> grows_on pr f5 \<Longrightarrow>
   grows_on pr (case_member f1 f2 f3 f4 f5 m)"
  by (cases m) simp_all

lemma grows_case_gobject [grows_intros]:
  "(\<And>v. grows_on pr (f1 v)) \<Longrightarrow> (\<And>f. grows_on pr (f2 f)) \<Longrightarrow> (\<And>c. grows_on pr (f3 c)) \<Longrightarrow>
   (\<And>n. grows_on pr (f4 n)) \<Longrightarrow> (\<And>n p ps. grows_on pr (f5 n p ps)) \<Longrightarrow>
   grows_on pr (case_gobject f1 f2 f3 f4 f5 ob)"
  by (cases ob) simp_all

lemma grows_each [grows_intros]:
  "(\<And>x. x \<in> set xs \<Longrightarrow> grows_on pr (body x)) \<Longrightarrow> grows_on pr (each xs body)"
  unfolding each_def by (rule grows_seq) auto

lemma grows_dep:
  assumes "\<And>a. grows_on pr (F a)"
  shows "grows_on pr (\<lambda>s. F (q s) s)"
proof (rule grows_onI)
  fix s s' assume wf: "wf_graph (pr s)" and run: "F (q s) s = Inr s'"
  with assms[of "q s"] show "ext (pr s) (pr s') \<and> wf_graph (pr s')" by (rule grows_onD)
qed

lemma grows_if_state [grows_intros]:
  assumes f: "grows_on pr f" and h: "grows_on pr h"
  shows "grows_on pr (\<lambda>s. if c s then f s else h s)"
proof (rule grows_onI)
  fix s s' assume wf: "wf_graph (pr s)" and run: "(if c s then f s else h s) = Inr s'"
  show "ext (pr s) (pr s') \<and> wf_graph (pr s')"
  proof (cases "c s")
    case True
    with run have "f s = Inr s'" by simp
    with f wf show ?thesis by (rule grows_onD)
  next
    case False
    with run have "h s = Inr s'" by simp
    with h wf show ?thesis by (rule grows_onD)
  qed
qed

lemma grows_case_option_state [grows_intros]:
  assumes f: "grows_on pr f" and h: "\<And>x. grows_on pr (h x)"
  shows "grows_on pr (\<lambda>s. case q s of None \<Rightarrow> f s | Some x \<Rightarrow> h x s)"
proof (rule grows_onI)
  fix s s'
  assume wf: "wf_graph (pr s)" and run: "(case q s of None \<Rightarrow> f s | Some x \<Rightarrow> h x s) = Inr s'"
  show "ext (pr s) (pr s') \<and> wf_graph (pr s')"
  proof (cases "q s")
    case None
    with run have "f s = Inr s'" by simp
    with f wf show ?thesis by (rule grows_onD)
  next
    case (Some x)
    with run have "h x s = Inr s'" by simp
    with h[of x] wf show ?thesis by (rule grows_onD)
  qed
qed

lemma grows_each_state [grows_intros]:
  "(\<And>x. grows_on pr (body x)) \<Longrightarrow> grows_on pr (\<lambda>s. each (q s) body s)"
  using grows_dep[of pr "\<lambda>xs. each xs body" q] by (simp add: grows_each)

lemma grows_see [grows_intros]: "grows_on (\<lambda>g. g) (see x)"
  by (simp add: grows_on_def see_ext see_wf)

lemma grows_use [grows_intros]: "grows_on (\<lambda>g. g) (use a b r)"
  by (simp add: grows_on_def use_ext use_wf)

lemma grows_use' [grows_intros]: "grows_on (\<lambda>g. g) (\<lambda>g. use a b r g)"
  by (simp add: grows_on_def use_ext use_wf)

lemma grows_seeAndUse [grows_intros]: "grows_on (\<lambda>g. g) (seeAndUse a b r)"
  unfolding seeAndUse_def by (intro grows_intros)

lemma grows_seeAndUse' [grows_intros]: "grows_on (\<lambda>g. g) (\<lambda>g. seeAndUse a b r g)"
  using grows_seeAndUse by simp

lemma grows_structField [grows_intros]: "grows_on (\<lambda>g. g) (structField t f)"
  unfolding structField_def by (intro grows_intros)

lemma grows_fieldAccess [grows_intros]: "grows_on (\<lambda>g. g) (fieldAccess fn st i)"
  unfolding fieldAccess_def by (intro grows_intros)

lemma grows_structConversion [grows_intros]: "grows_on (\<lambda>g. g) (structConversion T X)"
  unfolding structConversion_def by (intro grows_intros)

lemma grows_unsafeConversion [grows_intros]: "grows_on (\<lambda>g. g) (unsafeConversion fn A B)"
  unfolding unsafeConversion_def by (intro grows_intros)

lemma grows_helpsImplement [grows_intros]: "grows_on (\<lambda>g. g) (helpsImplement base path)"
proof (induction path arbitrary: base)
  case Nil
  show ?case by (simp add: grows_skip)
next
  case (Cons idx path)
  show ?case
    unfolding helpsImplement.simps by (intro grows_intros Cons)
qed

lemma grows_implementsMethod [grows_intros]: "grows_on (\<lambda>g. g) (implementsMethod t iface m)"
  unfolding implementsMethod_def
proof (rule grows_case_option_state, goal_cases)
  case 1
  show ?case by (rule grows_Inl)
next
  case (2 sel)
  show ?case by (intro grows_intros)
qed

lemma grows_pair_step:
  assumes f: "grows_on (\<lambda>g. g) f"
  shows "grows_on snd (\<lambda>s. case f (snd s) of Inl e \<Rightarrow> Inl e | Inr g' \<Rightarrow> Inr (k s, g'))"
proof (rule grows_onI)
  fix s s'
  assume wf: "wf_graph (snd s)"
    and run: "(case f (snd s) of Inl e \<Rightarrow> Inl e | Inr g' \<Rightarrow> Inr (k s, g')) = Inr s'"
  then obtain g' where g': "f (snd s) = Inr g'" and s': "s' = (k s, g')"
    by (auto split: sum.splits)
  from grows_onD[OF f, of "snd s" g'] wf g' show "ext (snd s) (snd s') \<and> wf_graph (snd s')"
    by (simp add: s')
qed

lemma grows_pair_const [grows_intros]: "grows_on snd (\<lambda>s. Inr (k s, snd s))"
  by (simp add: grows_on_def ext_refl)

lemma grows_pair_pre:
  assumes f: "grows_on snd f"
  shows "grows_on snd (\<lambda>s. f (k s, snd s))"
proof (rule grows_onI)
  fix s s' assume wf: "wf_graph (snd s)" and run: "f (k s, snd s) = Inr s'"
  from grows_onD[OF f, of "(k s, snd s)" s'] wf run
  show "ext (snd s) (snd s') \<and> wf_graph (snd s')" by simp
qed

lemma grows_unpair:
  assumes f: "grows_on snd f"
  shows "grows_on (\<lambda>g. g) (\<lambda>g. case f (k, g) of Inl e \<Rightarrow> Inl e | Inr s \<Rightarrow> Inr (snd s))"
proof (rule grows_onI)
  fix g g'
  assume wf: "wf_graph g"
    and run: "(case f (k, g) of Inl e \<Rightarrow> Inl e | Inr s \<Rightarrow> Inr (snd s)) = Inr g'"
  then obtain s where s: "f (k, g) = Inr s" and g': "g' = snd s"
    by (auto split: sum.splits)
  from grows_onD[OF f, of "(k, g)" s] wf s show "ext g g' \<and> wf_graph g'"
    by (simp add: g')
qed

lemma grows_handleReturn [grows_intros]: "grows_on snd (handleReturn n fn v)"
proof (induction n arbitrary: v)
  case 0
  show ?case by (simp add: grows_Inl)
next
  case (Suc n)
  have a: "grows_on snd (\<lambda>s. case seeAndUse (IFunction (Some f)) (IFunction (Some fn))
                         ''returning function'' (snd s) of
                    Inl e \<Rightarrow> Inl e
                  | Inr g' \<Rightarrow> Inr (v # fst s, g'))" for f
    by (rule grows_pair_step) (rule grows_seeAndUse)
  have b: "grows_on snd (\<lambda>s. each es (\<lambda>e. handleReturn n fn e) (v # fst s, snd s))" for es
    by (rule grows_pair_pre) (intro grows_intros Suc)
  have c: "grows_on snd (\<lambda>s. case w of
               VFunction f \<Rightarrow>
                 (case seeAndUse (IFunction (Some f)) (IFunction (Some fn))
                         ''returning function'' (snd s) of
                    Inl e \<Rightarrow> Inl e
                  | Inr g' \<Rightarrow> Inr (v # fst s, g'))
             | VPhi es \<Rightarrow> each es (\<lambda>e. handleReturn n fn e) (v # fst s, snd s)
             | _ \<Rightarrow> Inr (v # fst s, snd s))" for w
    using a b by (cases w) (simp_all add: grows_pair_const)
  have d: "grows_on snd (\<lambda>s. case Value (pkg (snd s)) v of
               VFunction f \<Rightarrow>
                 (case seeAndUse (IFunction (Some f)) (IFunction (Some fn))
                         ''returning function'' (snd s) of
                    Inl e \<Rightarrow> Inl e
                  | Inr g' \<Rightarrow> Inr (v # fst s, g'))
             | VPhi es \<Rightarrow> each es (\<lambda>e. handleReturn n fn e) (v # fst s, snd s)
             | _ \<Rightarrow> Inr (v # fst s, snd s))"
    using grows_dep[of snd _ "\<lambda>s. Value (pkg (snd s)) v", OF c] .
  show ?case
    unfolding handleReturn.simps by (rule grows_if_state[OF grows_Inr' d])
qed

subsection \<open>The walkers only add\<close>

lemma seenTypes_update_ext: "ext g (g\<lparr>seenTypes := t # seenTypes g\<rparr>)"
  by (auto simp: ext_def nodeMaybe_def split: iface.splits)

lemma seenFns_update_ext: "ext g (g\<lparr>seenFns := fn # seenFns g\<rparr>)"
  by (auto simp: ext_def nodeMaybe_def split: iface.splits)

lemma seenTypes_update_wf: "wf_graph (g\<lparr>seenTypes := ts\<rparr>) = wf_graph g"
  by (simp add: wf_graph_def wf_edges_def fresh_def visited_def)

lemma seenFns_update_wf: "wf_graph (g\<lparr>seenFns := fs\<rparr>) = wf_graph g"
  by (simp add: wf_graph_def wf_edges_def fresh_def visited_def)

lemma grows_seenTypes:
  assumes f: "grows_on (\<lambda>g. g) f"
  shows "grows_on (\<lambda>g. g) (\<lambda>g. f (g\<lparr>seenTypes := t # seenTypes g\<rparr>))"
proof (rule grows_onI)
  fix g g' assume wf: "wf_graph g" and run: "f (g\<lparr>seenTypes := t # seenTypes g\<rparr>) = Inr g'"
  have "wf_graph (g\<lparr>seenTypes := t # seenTypes g\<rparr>)" using wf by (simp add: seenTypes_update_wf)
  from grows_onD[OF f this run] show "ext g g' \<and> wf_graph g'"
    using ext_trans[OF seenTypes_update_ext[of g t]] by blast
qed

lemma grows_seenFns:
  assumes f: "grows_on (\<lambda>g. g) f"
  shows "grows_on (\<lambda>g. g) (\<lambda>g. f (g\<lparr>seenFns := fn # seenFns g\<rparr>))"
proof (rule grows_onI)
  fix g g' assume wf: "wf_graph g" and run: "f (g\<lparr>seenFns := fn # seenFns g\<rparr>) = Inr g'"
  have "wf_graph (g\<lparr>seenFns := fn # seenFns g\<rparr>)" using wf by (simp add: seenFns_update_wf)
  from grows_onD[OF f this run] show "ext g g' \<and> wf_graph g'"
    using ext_trans[OF seenFns_update_ext[of g fn]] by blast
qed

lemma grows_instruction_step:
  assumes ty: "\<And>T. grows_on (\<lambda>g. g) (ty T)"
    and ins: "\<And>f. grows_on (\<lambda>g. g) (ins f)"
    and uc: "\<And>v. grows_on snd (uc v)"
    and hr: "\<And>v. grows_on snd (hr v)"
  shows "grows_on (\<lambda>g. g) (instruction_step ty ins uc hr fn instr)"
proof -
  have ins': "\<And>f. grows_on (\<lambda>g. g) (\<lambda>g. ins f g)" using ins by simp
  have ucall: "grows_on (\<lambda>g. g) (\<lambda>g. case uc v ([], g) of
                                       Inl e \<Rightarrow> Inl e
                                     | Inr s \<Rightarrow> Inr (snd s))" for v
    by (rule grows_unpair) (rule uc)
  have hret: "grows_on (\<lambda>g. g) (\<lambda>g. case each rs hr ([], g) of
                                  Inl e \<Rightarrow> Inl e
                                | Inr s \<Rightarrow> Inr (snd s))" for rs
    by (rule grows_unpair) (intro grows_intros hr)
  show ?thesis
    unfolding instruction_step_def by (intro grows_intros ty ins' ucall hret)
qed

lemma walkers_grow:
  "(\<forall>t. grows_on (\<lambda>g. g) (Graph_typ n t))
   \<and> (\<forall>v. grows_on (\<lambda>g. g) (variable n v))
   \<and> (\<forall>sg. grows_on (\<lambda>g. g) (signature n sg))
   \<and> (\<forall>fn. grows_on (\<lambda>g. g) (Graph_function n fn))
   \<and> (\<forall>fn. grows_on (\<lambda>g. g) (instructions n fn))
   \<and> (\<forall>fn v. grows_on snd (useCall n fn v))"
proof (induction n)
  case 0
  show ?case by (simp add: grows_Inl)
next
  case (Suc n)
  then have ty: "\<And>t. grows_on (\<lambda>g. g) (Graph_typ n t)"
    and va: "\<And>v. grows_on (\<lambda>g. g) (variable n v)"
    and si: "\<And>sg. grows_on (\<lambda>g. g) (signature n sg)"
    and fu: "\<And>fn. grows_on (\<lambda>g. g) (Graph_function n fn)"
    and ins: "\<And>fn. grows_on (\<lambda>g. g) (instructions n fn)"
    and uc: "\<And>fn v. grows_on snd (useCall n fn v)"
    by simp_all
  have ins': "\<And>fn. grows_on (\<lambda>g. g) (\<lambda>g. instructions n fn g)" using ins by simp
  note ih = ty va si fu ins ins'
  have g_ty: "grows_on (\<lambda>g. g) (Graph_typ (Suc n) t)" for t
  proof -
    let ?body = "seq [see (IType t),
                 (case t of
                    TStruct fs \<Rightarrow> each fs (\<lambda>f. seq [structField t f, variable n f])
                  | TBasic k \<Rightarrow> skip
                  | TNamed tn u ms \<Rightarrow>
                      seq [seeAndUse (IType u) (IType t) ''underlying type'',
                           seeAndUse (IObject (OTypeName tn)) (IType t) ''type name'',
                           seeAndUse (IType t) (IObject (OTypeName tn)) ''named type'',
                           each ms
                             (\<lambda>m g. case FuncValue (pkg g) m of
                                      None \<Rightarrow>
                                        seq [see (IFunction None), (\<lambda>g. Inl NilDereference)] g
                                    | Some meth \<Rightarrow>
                                        seq [see (IFunction (Some meth)),
                                             (if (case fn_object meth of
                                                    None \<Rightarrow> False
                                                  | Some fo \<Rightarrow> IsExported (func_name fo))
                                              then use (IFunction (Some meth)) (IType t)
                                                     ''exported method''
                                              else skip),
                                             Graph_function n meth] g),
                           Graph_typ n u]
                  | TSlice e \<Rightarrow>
                      seq [seeAndUse (IType e) (IType t) ''element type'', Graph_typ n e]
                  | TMap k e \<Rightarrow>
                      seq [seeAndUse (IType e) (IType t) ''element type'',
                           seeAndUse (IType k) (IType t) ''key type'',
                           Graph_typ n e, Graph_typ n k]
                  | TSignature sg \<Rightarrow> signature n sg
                  | TInterface ms \<Rightarrow>
                      each ms
                        (\<lambda>m. seq [seeAndUse (IObject (OFunc m)) (IType t) ''interface method'',
                                  seeAndUse (IType (TSignature (func_sig m))) (IObject (OFunc m))
                                    ''signature'',
                                  signature n (func_sig m)])
                  | TArray l e \<Rightarrow>
                      seq [seeAndUse (IType e) (IType t) ''element type'', Graph_typ n e]
                  | TPointer e \<Rightarrow>
                      seq [seeAndUse (IType e) (IType t) ''element type'', Graph_typ n e]
                  | TChan e \<Rightarrow>
                      seq [seeAndUse (IType e) (IType t) ''element type'', Graph_typ n e]
                  | TTuple vs \<Rightarrow>
                      each vs
                        (\<lambda>v. seq [seeAndUse (IObject (OVar v)) (IType t) ''tuple element'',
                                  variable n v]))]"
    have body: "grows_on (\<lambda>g. g) ?body" by (intro grows_intros ih)
    have m1: "grows_on (\<lambda>g. g) (\<lambda>g. Inr (g\<lparr>seenTypes := t # seenTypes g\<rparr>))"
      using grows_seenTypes[OF grows_Inr, of t] by simp
    have m2: "grows_on (\<lambda>g. g) (\<lambda>g. ?body (g\<lparr>seenTypes := t # seenTypes g\<rparr>))"
      by (rule grows_seenTypes[OF body])
    show ?thesis
      unfolding Graph_typ.simps
      by (intro grows_if_state grows_Inr' m1 m2)
  qed
  have g_va: "grows_on (\<lambda>g. g) (variable (Suc n) v)" for v
    unfolding variable.simps by (intro grows_intros ih)
  have g_si: "grows_on (\<lambda>g. g) (signature (Suc n) sg)" for sg
    unfolding signature.simps by (intro grows_intros ih)
  have g_fu: "grows_on (\<lambda>g. g) (Graph_function (Suc n) fn)" for fn
    unfolding Graph_function.simps by (intro grows_intros ih)
  have g_in: "grows_on (\<lambda>g. g) (instructions (Suc n) fn)" for fn
  proof -
    let ?body = "instruction_step (\<lambda>T. Graph_typ n T) (\<lambda>f. instructions n f)
                 (\<lambda>v. useCall n fn v) (\<lambda>v. handleReturn n fn v) fn"
    have body: "grows_on (\<lambda>g. g) (?body instr)" for instr
      by (rule grows_instruction_step) (intro ih uc grows_intros)+
    have lp: "grows_on (\<lambda>g. g) (each xs ?body)" for xs
      by (rule grows_each) (rule body)
    have m: "grows_on (\<lambda>g. g) (\<lambda>g. each xs ?body (g\<lparr>seenFns := fn # seenFns g\<rparr>))" for xs
      by (rule grows_seenFns[OF lp])
    have d: "grows_on (\<lambda>g. g)
        (\<lambda>g. each (concat (Blocks (pkg g) fn)) ?body (g\<lparr>seenFns := fn # seenFns g\<rparr>))"
      using grows_dep[of "\<lambda>g. g" "\<lambda>xs g. each xs ?body (g\<lparr>seenFns := fn # seenFns g\<rparr>)"
          "\<lambda>g. concat (Blocks (pkg g) fn)", OF m] .
    show ?thesis
      unfolding instructions.simps by (rule grows_if_state[OF grows_Inr' d])
  qed
  have ucl: "grows_on snd (useCall (Suc n) fn v)" for fn v
  proof -
    have a: "grows_on snd (\<lambda>s. case seq [seeAndUse (IFunction (Some f)) (IFunction (Some fn)) ''function call'',
                            (case fn_object f of
                               None \<Rightarrow> skip
                             | Some ob \<Rightarrow>
                                 (\<lambda>g. if FuncValue (pkg g) ob \<noteq> Some f
                                      then instructions n f g else Inr g))] (snd s) of
                    Inl e \<Rightarrow> Inl e
                  | Inr g' \<Rightarrow> Inr (v # fst s, g'))" for f
      by (rule grows_pair_step) (intro grows_intros ih)
    have b: "grows_on snd (\<lambda>s. each es (\<lambda>e. useCall n fn e) (v # fst s, snd s))" for es
      by (rule grows_pair_pre) (intro grows_intros uc)
    have c: "grows_on snd (\<lambda>s. useCall n fn w (v # fst s, snd s))" for w
      by (rule grows_pair_pre) (rule uc)
    have d: "grows_on snd (\<lambda>s. case w of
               VFunction f \<Rightarrow>
                 (case seq [seeAndUse (IFunction (Some f)) (IFunction (Some fn)) ''function call'',
                            (case fn_object f of
                               None \<Rightarrow> skip
                             | Some ob \<Rightarrow>
                                 (\<lambda>g. if FuncValue (pkg g) ob \<noteq> Some f
                                      then instructions n f g else Inr g))] (snd s) of
                    Inl e \<Rightarrow> Inl e
                  | Inr g' \<Rightarrow> Inr (v # fst s, g'))
             | VMakeClosure w \<Rightarrow> useCall n fn w (v # fst s, snd s)
             | VBuiltin \<Rightarrow> Inr (v # fst s, snd s)
             | VPhi es \<Rightarrow> each es (\<lambda>e. useCall n fn e) (v # fst s, snd s)
             | VOther \<Rightarrow> Inr (v # fst s, snd s))" for w
      using a b c by (cases w) (simp_all add: grows_pair_const)
    have e: "grows_on snd (\<lambda>s. case Value (pkg (snd s)) v of
               VFunction f \<Rightarrow>
                 (case seq [seeAndUse (IFunction (Some f)) (IFunction (Some fn)) ''function call'',
                            (case fn_object f of
                               None \<Rightarrow> skip
                             | Some ob \<Rightarrow>
                                 (\<lambda>g. if FuncValue (pkg g) ob \<noteq> Some f
                                      then instructions n f g else Inr g))] (snd s) of
                    Inl e \<Rightarrow> Inl e
                  | Inr g' \<Rightarrow> Inr (v # fst s, g'))
             | VMakeClosure w \<Rightarrow> useCall n fn w (v # fst s, snd s)
             | VBuiltin \<Rightarrow> Inr (v # fst s, snd s)
             | VPhi es \<Rightarrow> each es (\<lambda>e. useCall n fn e) (v # fst s, snd s)
             | VOther \<Rightarrow> Inr (v # fst s, snd s))"
      using grows_dep[of snd _ "\<lambda>s. Value (pkg (snd s)) v", OF d] .
    show ?thesis
      unfolding useCall.simps by (rule grows_if_state[OF grows_Inr' e])
  qed
  show ?case using g_ty g_va g_si g_fu g_in ucl by blast
qed

lemmas walker_grows =
  walkers_grow[THEN conjunct1, rule_format]
  walkers_grow[THEN conjunct2, THEN conjunct1, rule_format]
  walkers_grow[THEN conjunct2, THEN conjunct2, THEN conjunct1, rule_format]
  walkers_grow[THEN conjunct2, THEN conjunct2, THEN conjunct2, THEN conjunct1, rule_format]
  walkers_grow[THEN conjunct2, THEN conjunct2, THEN conjunct2, THEN conjunct2, THEN conjunct1, rule_format]
  walkers_grow[THEN conjunct2, THEN conjunct2, THEN conjunct2, THEN conjunct2, THEN conjunct2, rule_format]

lemma grows_entry: "grows_on (\<lambda>g. g) (entry n tinfo)"
proof -
  have last: "grows_on (\<lambda>g. g)
     (\<lambda>g. each (filter isInterface (seenTypes g))
                  (\<lambda>iface.
                     each (filter (\<lambda>t. \<not> isInterface t \<and> \<not> isInterface (Underlying t))
                             (seenTypes g))
                       (\<lambda>t g. if implements (msCache g) t iface then
                                each (NumMethods iface) (\<lambda>m. implementsMethod t iface m) g
                              else Inr g)) g)"
  proof -
    have "grows_on (\<lambda>g. g)
       (each (fst a) (\<lambda>iface. each (snd a)
                       (\<lambda>t g. if implements (msCache g) t iface then
                                each (NumMethods iface) (\<lambda>m. implementsMethod t iface m) g
                              else Inr g)))" for a :: "gtype list \<times> gtype list"
      by (intro grows_intros)
    from grows_dep[of "\<lambda>g. g" "\<lambda>a. each (fst a) (\<lambda>iface. each (snd a)
                       (\<lambda>t g. if implements (msCache g) t iface then
                                each (NumMethods iface) (\<lambda>m. implementsMethod t iface m) g
                              else Inr g))"
        "\<lambda>g. (filter isInterface (seenTypes g),
              filter (\<lambda>t. \<not> isInterface t \<and> \<not> isInterface (Underlying t)) (seenTypes g))",
        OF this]
    show ?thesis by simp
  qed
  show ?thesis
    unfolding entry_def Let_def
    by (intro grows_intros walker_grows last)
qed

section \<open>Struct conversions\<close>

text \<open>
  A \<^verbatim>\<open>ChangeType\<close> instruction between two struct types makes the fields at the
  same index use each other. \<open>see\<close> and \<open>use\<close> return early on an entity of
  another package, so the edges exist for the fields that belong to the package under
  analysis.
\<close>

lemma ext_edges: "ext g g' \<Longrightarrow> edges g \<subseteq> edges g'"
proof
  fix e assume x: "ext g g'" and e: "e \<in> edges g"
  obtain u v where uv: "e = (u, v)" by (cases e)
  from e uv have u: "u < length (heap g)" and v: "v \<in> fst ` set (used (heap g ! u))"
    by (simp_all add: edges_def successors_def)
  from x u have "fst ` set (used (heap g ! u)) \<subseteq> fst ` set (used (heap g' ! u))"
    by (simp add: ext_def)
  with v have "v \<in> fst ` set (used (heap g' ! u))" by blast
  moreover have "u < length (heap g')" using x u by (simp add: ext_def)
  ultimately show "e \<in> edges g'" by (simp add: uv edges_def successors_def)
qed

lemma ext_pkg: "ext g g' \<Longrightarrow> pkg g' = pkg g"
  by (simp add: ext_def)

lemma ext_foreign: "ext g g' \<Longrightarrow> foreign g' x = foreign g x"
  using ext_pkg[of g g'] by (simp add: foreign_def split: iface.splits)

lemma ext_nodeMaybe: "ext g g' \<Longrightarrow> nodeMaybe g x = Some n \<Longrightarrow> nodeMaybe g' x = Some n"
  by (simp add: ext_def)

lemma seq_Cons_Inr:
  "seq (f # fs) s = Inr s' \<Longrightarrow> \<exists>s1. f s = Inr s1 \<and> seq fs s1 = Inr s'"
  by (auto split: sum.splits)

lemma each_member:
  assumes b: "\<And>y. grows_on (\<lambda>g. g) (body y)"
  shows "wf_graph g \<Longrightarrow> each xs body g = Inr g' \<Longrightarrow> x \<in> set xs \<Longrightarrow>
         \<exists>ga gb. wf_graph ga \<and> ext g ga \<and> body x ga = Inr gb \<and> wf_graph gb \<and> ext gb g'"
proof (induction xs arbitrary: g)
  case Nil
  then show ?case by simp
next
  case (Cons y ys)
  from Cons(3) obtain g1 where y: "body y g = Inr g1" and r: "each ys body g1 = Inr g'"
    by (auto simp: each_def split: sum.splits)
  from grows_onD[OF b Cons(2) y] have e1: "ext g g1" and w1: "wf_graph g1" by simp_all
  have rest: "grows_on (\<lambda>g. g) (each ys body)" by (rule grows_each) (rule b)
  from grows_onD[OF rest w1 r] have e2: "ext g1 g'" and w2: "wf_graph g'" by simp_all
  show ?case
  proof (cases "x = y")
    case True
    then show ?thesis using Cons(2) y w1 e2 ext_refl by blast
  next
    case False
    with Cons(4) have "x \<in> set ys" by simp
    from Cons(1)[OF w1 r this] obtain ga gb where
      "wf_graph ga" "ext g1 ga" "body x ga = Inr gb" "wf_graph gb" "ext gb g'" by blast
    then show ?thesis using ext_trans[OF e1] by blast
  qed
qed

definition conversion_edges :: "gvar \<Rightarrow> gvar \<Rightarrow> graph \<Rightarrow> bool" where
  "conversion_edges f1 f2 g \<longleftrightarrow>
     (\<exists>n1 n2. nodeMaybe g (IObject (OVar f1)) = Some n1
            \<and> nodeMaybe g (IObject (OVar f2)) = Some n2
            \<and> (n2, n1) \<in> edges g \<and> (n1, n2) \<in> edges g)"

lemma conversion_edges_ext:
  "conversion_edges f1 f2 g \<Longrightarrow> ext g g' \<Longrightarrow> conversion_edges f1 f2 g'"
  unfolding conversion_edges_def using ext_edges[of g g'] ext_nodeMaybe[of g g'] by blast

lemma field_relevant: "IsField f \<Longrightarrow> \<not> isIrrelevant (IObject (OVar f))"
  by simp

lemma conversion_step:
  assumes wf: "wf_graph g"
    and run: "seq [see (IObject (OVar f1)), see (IObject (OVar f2)),
                   seeAndUse (IObject (OVar f1)) (IObject (OVar f2)) r,
                   seeAndUse (IObject (OVar f2)) (IObject (OVar f1)) r] g = Inr g'"
    and fld: "IsField f1" "IsField f2"
    and loc: "\<not> foreign g (IObject (OVar f1))" "\<not> foreign g (IObject (OVar f2))"
  shows "conversion_edges f1 f2 g'"
proof -
  let ?a = "IObject (OVar f1)" and ?b = "IObject (OVar f2)"
  from run obtain g1 g2 g3 where s1: "see ?a g = Inr g1" and s2: "see ?b g1 = Inr g2"
    and s3: "seeAndUse ?a ?b r g2 = Inr g3" and s4: "seeAndUse ?b ?a r g3 = Inr g'"
    by (auto split: sum.splits)
  from s3 obtain g2a where s3a: "see ?a g2 = Inr g2a" and s3b: "use ?a ?b r g2a = Inr g3"
    by (auto simp: seeAndUse_def split: sum.splits)
  from s4 obtain g3a where s4a: "see ?b g3 = Inr g3a" and s4b: "use ?b ?a r g3a = Inr g'"
    by (auto simp: seeAndUse_def split: sum.splits)
  have w1: "wf_graph g1" using wf s1 by (rule see_wf)
  have w2: "wf_graph g2" using w1 s2 by (rule see_wf)
  have w2a: "wf_graph g2a" using w2 s3a by (rule see_wf)
  have w3: "wf_graph g3" using w2a s3b by (rule use_wf)
  have w3a: "wf_graph g3a" using w3 s4a by (rule see_wf)
  have e2a: "ext g g2a"
    using ext_trans[OF ext_trans[OF see_ext[OF s1] see_ext[OF s2]] see_ext[OF s3a]] .
  have e3a: "ext g g3a"
    using ext_trans[OF ext_trans[OF e2a use_ext[OF s3b]] see_ext[OF s4a]] .
  have l2a: "\<not> foreign g2a ?a" "\<not> foreign g2a ?b" using loc ext_foreign[OF e2a] by simp_all
  have l3a: "\<not> foreign g3a ?a" "\<not> foreign g3a ?b" using loc ext_foreign[OF e3a] by simp_all
  have ra: "\<not> isIrrelevant ?a" and rb: "\<not> isIrrelevant ?b" using fld by simp_all
  from use_edge[OF w2a s3b ra l2a] obtain u t where
    a3: "nodeMaybe g3 ?a = Some u" and b3: "nodeMaybe g3 ?b = Some t" and e3: "(t, u) \<in> edges g3"
    by auto
  from use_edge[OF w3a s4b rb l3a(2) l3a(1)] obtain u' t' where
    b4: "nodeMaybe g' ?b = Some u'" and a4: "nodeMaybe g' ?a = Some t'"
    and e4: "(t', u') \<in> edges g'"
    by auto
  have x: "ext g3 g'" using ext_trans[OF see_ext[OF s4a] use_ext[OF s4b]] .
  have "nodeMaybe g' ?a = Some u" using x a3 by (rule ext_nodeMaybe)
  with a4 have tu: "t' = u" by simp
  have "nodeMaybe g' ?b = Some t" using x b3 by (rule ext_nodeMaybe)
  with b4 have ut: "u' = t" by simp
  have "(t, u) \<in> edges g'" using e3 ext_edges[OF x] by blast
  then show ?thesis
    unfolding conversion_edges_def using a4 b4 e4 tu ut by blast
qed

lemma structConversion_edges:
  assumes wf: "wf_graph g" and run: "structConversion T X g = Inr g'"
    and s1: "Underlying (Dereference T) = TStruct s1"
    and s2: "Underlying (Dereference X) = TStruct s2"
    and i: "i < length s1"
    and fld: "IsField (s1 ! i)" "IsField (s2 ! i)"
    and loc: "\<not> foreign g (IObject (OVar (s1 ! i)))" "\<not> foreign g (IObject (OVar (s2 ! i)))"
  shows "conversion_edges (s1 ! i) (s2 ! i) g' \<and> wf_graph g' \<and> ext g g'"
proof -
  let ?body = "\<lambda>i. seq [see (IObject (OVar (s1 ! i))),
                                see (IObject (OVar (s2 ! i))),
                                seeAndUse (IObject (OVar (s1 ! i))) (IObject (OVar (s2 ! i)))
                                  ''struct conversion'',
                                seeAndUse (IObject (OVar (s2 ! i))) (IObject (OVar (s1 ! i)))
                                  ''struct conversion'']"
  have len: "length s1 = length s2" using run s1 s2
    by (auto simp: structConversion_def split: if_splits)
  then have r: "each [0..<length s1] ?body g = Inr g'" using run s1 s2
    by (simp add: structConversion_def)
  have b: "\<And>y. grows_on (\<lambda>g. g) (?body y)" by (intro grows_intros)
  have "i \<in> set [0..<length s1]" using i by simp
  from each_member[of ?body, OF b wf r this] obtain ga gb where
    wa: "wf_graph ga" and ea: "ext g ga" and st: "?body i ga = Inr gb"
    and wb: "wf_graph gb" and eb: "ext gb g'" by blast
  have la: "\<not> foreign ga (IObject (OVar (s1 ! i)))" "\<not> foreign ga (IObject (OVar (s2 ! i)))"
    using loc ext_foreign[OF ea] by simp_all
  have "conversion_edges (s1 ! i) (s2 ! i) gb"
    using conversion_step[OF wa st fld la] .
  then have c: "conversion_edges (s1 ! i) (s2 ! i) g'" using eb by (rule conversion_edges_ext)
  from grows_onD[OF grows_structConversion wf run] show ?thesis using c by simp
qed

lemma instruction_step_conversion:
  assumes ty: "\<And>T. grows_on (\<lambda>g. g) (ty T)"
    and ins: "\<And>f. grows_on (\<lambda>g. g) (ins f)"
    and uc: "\<And>v. grows_on snd (uc v)"
    and hr: "\<And>v. grows_on snd (hr v)"
    and wf: "wf_graph g"
    and run: "instruction_step ty ins uc hr fn (SsaChangeType T X) g = Inr g'"
    and s1: "Underlying (Dereference T) = TStruct s1"
    and s2: "Underlying (Dereference X) = TStruct s2"
    and i: "i < length s1"
    and fld: "IsField (s1 ! i)" "IsField (s2 ! i)"
    and loc: "\<not> foreign g (IObject (OVar (s1 ! i)))" "\<not> foreign g (IObject (OVar (s2 ! i)))"
  shows "conversion_edges (s1 ! i) (s2 ! i) g'"
proof -
  let ?fn = "IFunction (Some fn)"
  from run obtain g1 where a: "seq [seeAndUse (IType T) ?fn ''instruction'', ty T] g = Inr g1"
    and b: "seq [seeAndUse (IType T) ?fn ''conversion'', ty T, structConversion T X] g1 = Inr g'"
    by (auto simp: instruction_step_def split: sum.splits)
  have "grows_on (\<lambda>g. g) (seq [seeAndUse (IType T) ?fn ''instruction'', ty T])"
    by (intro grows_intros ty)
  from grows_onD[OF this wf a] have e1: "ext g g1" and w1: "wf_graph g1" by simp_all
  from b obtain g2 where c: "seq [seeAndUse (IType T) ?fn ''conversion'', ty T] g1 = Inr g2"
    and d: "structConversion T X g2 = Inr g'"
    by (auto split: sum.splits)
  have "grows_on (\<lambda>g. g) (seq [seeAndUse (IType T) ?fn ''conversion'', ty T])"
    by (intro grows_intros ty)
  from grows_onD[OF this w1 c] have e2: "ext g1 g2" and w2: "wf_graph g2" by simp_all
  have l2: "\<not> foreign g2 (IObject (OVar (s1 ! i)))" "\<not> foreign g2 (IObject (OVar (s2 ! i)))"
    using loc ext_foreign[OF ext_trans[OF e1 e2]] by simp_all
  from structConversion_edges[OF w2 d s1 s2 i fld l2] show ?thesis by simp
qed

lemma instructions_conversion:
  assumes wf: "wf_graph g"
    and first: "fn \<notin> set (seenFns g)"
    and run: "instructions n fn g = Inr g1"
    and instr: "SsaChangeType T X \<in> set (concat (Blocks (pkg g) fn))"
    and s1: "Underlying (Dereference T) = TStruct s1"
    and s2: "Underlying (Dereference X) = TStruct s2"
    and i: "i < length s1"
    and fld: "IsField (s1 ! i)" "IsField (s2 ! i)"
    and loc: "\<not> foreign g (IObject (OVar (s1 ! i)))" "\<not> foreign g (IObject (OVar (s2 ! i)))"
  shows "conversion_edges (s1 ! i) (s2 ! i) g1"
proof (cases n)
  case 0
  then show ?thesis using run by simp
next
  case (Suc m)
  let ?g0 = "g\<lparr>seenFns := fn # seenFns g\<rparr>"
  let ?body = "instruction_step (\<lambda>T. Graph_typ m T) (\<lambda>f. instructions m f)
                 (\<lambda>v. useCall m fn v) (\<lambda>v. handleReturn m fn v) fn"
  have r: "each (concat (Blocks (pkg g) fn)) ?body ?g0 = Inr g1"
    using run first Suc by simp
  have w0: "wf_graph ?g0" using wf by (simp add: seenFns_update_wf)
  have b: "\<And>y. grows_on (\<lambda>g. g) (?body y)"
    by (rule grows_instruction_step) (intro walker_grows grows_intros)+
  from each_member[of ?body, OF b w0 r instr] obtain ga gb where
    wa: "wf_graph ga" and ea: "ext ?g0 ga" and st: "?body (SsaChangeType T X) ga = Inr gb"
    and wb: "wf_graph gb" and eb: "ext gb g1" by blast
  have "ext g ga" using ext_trans[OF seenFns_update_ext ea] .
  then have la: "\<not> foreign ga (IObject (OVar (s1 ! i)))" "\<not> foreign ga (IObject (OVar (s2 ! i)))"
    using loc ext_foreign by simp_all
  have "conversion_edges (s1 ! i) (s2 ! i) gb"
    by (rule instruction_step_conversion[OF _ _ _ _ wa st s1 s2 i fld la])
       (intro walker_grows grows_intros)+
  then show ?thesis using eb by (rule conversion_edges_ext)
qed

lemma color_frame:
  "color g root = g\<lparr>heap := heap (color g root)\<rparr>"
  "color_range g ps = g\<lparr>heap := heap (color_range g ps)\<rparr>"
proof (induction g root and g ps rule: color_color_range.induct)
  case (1 g root)
  show ?case
  proof (cases "root < length (heap g) \<and> \<not> seen (heap g ! root)")
    case True
    let ?g1 = "g\<lparr>heap := (heap g)[root := (heap g ! root)\<lparr>seen := True\<rparr>]\<rparr>"
    let ?r = "color_range ?g1 (map fst (used (heap g ! root)))"
    from True 1 have "?r = ?g1\<lparr>heap := heap ?r\<rparr>" by simp
    then have "?r = g\<lparr>heap := heap ?r\<rparr>" by simp
    moreover have "color g root = ?r" using True by simp
    ultimately show ?thesis by simp
  next
    case False
    then show ?thesis by auto
  qed
next
  case (2 g)
  show ?case by simp
next
  case (3 g other rest)
  let ?g1 = "color g other"
  have a: "?g1 = g\<lparr>heap := heap ?g1\<rparr>" using 3(1) .
  have b: "color_range ?g1 rest = ?g1\<lparr>heap := heap (color_range ?g1 rest)\<rparr>" using 3(2) .
  have "color_range ?g1 rest = g\<lparr>heap := heap (color_range ?g1 rest)\<rparr>"
    by (subst b, subst a) simp
  then show ?case by simp
qed

lemma color_nodeMaybe: "nodeMaybe (color g root) x = nodeMaybe g x"
proof -
  have "nodeMaybe (g\<lparr>heap := heap (color g root)\<rparr>) x = nodeMaybe g x"
    by (simp add: nodeMaybe_def split: iface.splits)
  then show ?thesis using color_frame(1)[of g root] by simp
qed

text \<open>An entity is seen when it has a node and the node is seen.\<close>

definition entity_seen :: "graph \<Rightarrow> iface \<Rightarrow> bool" where
  "entity_seen g x = (case nodeMaybe g x of None \<Rightarrow> False | Some n \<Rightarrow> seen (heap g ! n))"

lemma mutual_edges_seen:
  assumes wf: "wf_graph g" and e: "(n1, n2) \<in> edges g" "(n2, n1) \<in> edges g"
  shows "seen (heap (color g (Root g)) ! n1) \<longleftrightarrow> seen (heap (color g (Root g)) ! n2)"
proof -
  have we: "wf_edges g" and r: "Root g < length (heap g)" and f: "fresh g"
    using wf by (simp_all add: wf_graph_def)
  have l1: "n1 < length (heap g)" and l2: "n2 < length (heap g)"
    using e by (simp_all add: edges_def)
  have "(Root g, n1) \<in> (edges g)\<^sup>* \<longleftrightarrow> (Root g, n2) \<in> (edges g)\<^sup>*"
    using e by (meson rtrancl.rtrancl_into_rtrancl)
  then show ?thesis
    using color_reach[OF we r f l1] color_reach[OF we r f l2] by simp
qed



text \<open>
  An instance: package \<^verbatim>\<open>p\<close> declares \<^verbatim>\<open>type t struct{ a int }\<close>,
  \<^verbatim>\<open>type u struct{ a int }\<close> and \<^verbatim>\<open>func f(x u) t { return t(x) }\<close>. The graph
  \<open>sc_graph0\<close> is the new graph after \<open>see\<close> of \<^verbatim>\<open>f\<close>, as \<open>Graph_function\<close>
  leaves it before it calls \<open>instructions\<close>.
\<close>

lemma NewGraph_wf: "wf_graph ((NewGraph p tu)\<lparr>job := j, scopes := sc\<rparr>)"
  by (simp add: wf_graph_def NewGraph_def newNode_def wf_edges_def fresh_def visited_def
      successors_def Let_def)

definition sc_A :: gvar where "sc_A = NewVar ''a'' (Some ''p'') 2 True False (TBasic KInt)"
definition sc_B :: gvar where "sc_B = NewVar ''a'' (Some ''p'') 4 True False (TBasic KInt)"
definition sc_T :: gtype where "sc_T = TNamed (NewTypeName ''t'' (Some ''p'') 1) (TStruct [sc_A]) []"
definition sc_U :: gtype where "sc_U = TNamed (NewTypeName ''u'' (Some ''p'') 3) (TStruct [sc_B]) []"
definition sc_sig :: gsig where
  "sc_sig = NewSignature None [NewVar ''x'' (Some ''p'') 6 False False sc_U]
              [NewVar [] (Some ''p'') 0 False False sc_T]"
definition sc_f :: ssa_function where
  "sc_f = Function 1 ''f'' (Some (NewFunc ''f'' (Some ''p'') 5 1 sc_sig)) 5 (Some ''p'') sc_sig (Some [])"

definition sc_ssa :: ssa_package where
  "sc_ssa = \<lparr>Pkg = Some ''p'', PkgName = ''p'',
             FuncValue = (\<lambda>f. if f = NewFunc ''f'' (Some ''p'') 5 1 sc_sig then Some sc_f else None),
             Members = [MType (Some (NewTypeName ''t'' (Some ''p'') 1)) sc_T,
                        MType (Some (NewTypeName ''u'' (Some ''p'') 3)) sc_U, MFunction sc_f],
             Blocks = (\<lambda>fn. if fn = sc_f then [[SsaChangeType sc_T sc_U, SsaReturn [1]]] else []),
             AnonFuncs = (\<lambda>fn. []), Value = (\<lambda>v. VOther)\<rparr>"

definition sc_graph0 :: graph where
  "sc_graph0 = projr (see (IFunction (Some sc_f))
                 ((NewGraph sc_ssa ex_tu)\<lparr>job := \<lparr>InitialFunctions = [sc_f]\<rparr>,
                    scopes := Check_scopes [sc_f]\<rparr>))"

definition sc_graph1 :: graph where
  "sc_graph1 = projr (instructions 5 sc_f sc_graph0)"



text \<open>
  Across packages the edges are missing. Package \<^verbatim>\<open>p\<close> imports \<^verbatim>\<open>q\<close>, which
  declares \<^verbatim>\<open>type S struct{ A int }\<close>; \<^verbatim>\<open>p\<close> declares
  \<^verbatim>\<open>type T struct{ A int }\<close> and \<^verbatim>\<open>func F(x q.S) T { return T(x) }\<close>. After the
  whole of \<open>entry\<close> and coloring, the function and the field \<^verbatim>\<open>T.A\<close> are seen,
  and the field \<^verbatim>\<open>S.A\<close> at the same index has no node.
\<close>

definition xp_A :: gvar where "xp_A = NewVar ''A'' (Some ''p'') 2 True False (TBasic KInt)"
definition xp_B :: gvar where "xp_B = NewVar ''A'' (Some ''q'') 4 True False (TBasic KInt)"
definition xp_Tn :: typename where "xp_Tn = NewTypeName ''T'' (Some ''p'') 1"
definition xp_T :: gtype where "xp_T = TNamed xp_Tn (TStruct [xp_A]) []"
definition xp_S :: gtype where "xp_S = TNamed (NewTypeName ''S'' (Some ''q'') 3) (TStruct [xp_B]) []"
definition xp_x :: gvar where "xp_x = NewVar ''x'' (Some ''p'') 6 False False xp_S"
definition xp_sig :: gsig where
  "xp_sig = NewSignature None [xp_x] [NewVar [] (Some ''p'') 0 False False xp_T]"
definition xp_Fobj :: gfunc where "xp_Fobj = NewFunc ''F'' (Some ''p'') 5 1 xp_sig"
definition xp_F :: ssa_function where
  "xp_F = Function 1 ''F'' (Some xp_Fobj) 5 (Some ''p'') xp_sig (Some [7, 8, 9])"
definition xp_init :: ssa_function where
  "xp_init = Function 2 ''init'' None 0 (Some ''p'') (NewSignature None [] []) None"

definition xp_ssa :: ssa_package where
  "xp_ssa = \<lparr>Pkg = Some ''p'', PkgName = ''p'',
             FuncValue = (\<lambda>f. if f = xp_Fobj then Some xp_F else None),
             Members = [MType (Some xp_Tn) xp_T, MFunction xp_F, MFunction xp_init],
             Blocks = (\<lambda>fn. if fn = xp_F then [[SsaChangeType xp_T xp_S, SsaReturn [1]]] else []),
             AnonFuncs = (\<lambda>fn. []), Value = (\<lambda>v. VOther)\<rparr>"

definition xp_info :: types_info where
  "xp_info = \<lparr>Defs = [(1, Some (OTypeName xp_Tn)), (2, Some (OVar xp_A)), (5, Some (OFunc xp_Fobj)),
                      (6, Some (OVar xp_x))],
              Uses = [(7, OTypeName (NewTypeName ''S'' (Some ''q'') 3)), (8, OTypeName xp_Tn),
                      (9, OVar xp_x)],
              TypeNameType = (\<lambda>n. if n = xp_Tn then xp_T else xp_S)\<rparr>"

definition xp_job :: lint_job where "xp_job = \<lparr>InitialFunctions = [xp_F, xp_init]\<rparr>"

definition xp_graph0 :: graph where
  "xp_graph0 = (NewGraph xp_ssa ex_tu)\<lparr>job := xp_job, scopes := Check_scopes (InitialFunctions xp_job)\<rparr>"


section \<open>Constants used inside functions\<close>

text \<open>
  \<open>entry\<close> walks the syntax of every initial function and records, for each identifier
  that resolves to a constant, an edge from the function to the constant. The loop after
  it, over all of \<^verbatim>\<open>tinfo.Uses\<close>, skips the identifiers of the map
  \<^verbatim>\<open>handledConsts\<close>; nothing is ever put into that map, so the loop records an edge
  from the root for every identifier that resolves to a constant.

  The package here is \<^verbatim>\<open>package p; const c = 1; func f() int { return c }\<close>.
\<close>

definition cp_c :: gconst where "cp_c = NewConst ''c'' (Some ''p'') 2 (TBasic KInt) [0]"
definition cp_sig :: gsig where
  "cp_sig = NewSignature None [] [NewVar [] (Some ''p'') 0 False False (TBasic KInt)]"
definition cp_fobj :: gfunc where "cp_fobj = NewFunc ''f'' (Some ''p'') 3 1 cp_sig"
definition cp_f :: ssa_function where
  "cp_f = Function 1 ''f'' (Some cp_fobj) 3 (Some ''p'') cp_sig (Some [2, 3, 4])"
definition cp_init :: ssa_function where
  "cp_init = Function 2 ''init'' None 0 (Some ''p'') (NewSignature None [] []) None"

definition cp_ssa :: ssa_package where
  "cp_ssa = \<lparr>Pkg = Some ''p'', PkgName = ''p'',
             FuncValue = (\<lambda>f. if f = cp_fobj then Some cp_f else None),
             Members = [MNamedConst, MFunction cp_f, MFunction cp_init],
             Blocks = (\<lambda>fn. if fn = cp_f then [[SsaReturn [1]]] else []),
             AnonFuncs = (\<lambda>fn. []), Value = (\<lambda>v. VOther)\<rparr>"

definition cp_info :: types_info where
  "cp_info = \<lparr>Defs = [(1, Some (OConst cp_c)), (2, Some (OFunc cp_fobj))],
              Uses = [(3, OTypeName (NewTypeName ''int'' None 0)), (4, OConst cp_c)],
              TypeNameType = (\<lambda>n. TBasic KInt)\<rparr>"

definition cp_lp :: lint_pkg where
  "cp_lp = \<lparr>SSA = cp_ssa, Types = Some ''p'', TypesInfo = cp_info\<rparr>"

definition cp_job :: lint_job where "cp_job = \<lparr>InitialFunctions = [cp_f, cp_init]\<rparr>"

definition cp_prog :: lint_program where
  "cp_prog = \<lparr>InitialPackages = [cp_lp], Fset_Position = (\<lambda>p. (''p.go'', p, 1))\<rparr>"

definition cp_graph0 :: graph where
  "cp_graph0 = (NewGraph cp_ssa ex_tu)\<lparr>job := cp_job, scopes := Check_scopes (InitialFunctions cp_job)\<rparr>"


text \<open>
  Claim C6. The constant \<^verbatim>\<open>c\<close> is referenced only in the body of the unexported and
  unreachable function \<^verbatim>\<open>f\<close>. It has the edge from \<^verbatim>\<open>f\<close>, and it also has a
  \<^verbatim>\<open>used constant\<close> edge from the root: after coloring \<^verbatim>\<open>f\<close> is unseen and
  \<^verbatim>\<open>c\<close> is seen, and the checker reports \<^verbatim>\<open>f\<close> alone.
\<close>

theorem used_constant_root_edge:
  "(case entry 10 cp_info cp_graph0 of
      Inl e \<Rightarrow> False
    | Inr g \<Rightarrow>
        surroundingFunc (scopes g) (const_scopes cp_c) = None
        \<and> nodeMaybe g (IObject (OConst cp_c)) = Some 1
        \<and> nodeMaybe g (IFunction (Some cp_f)) = Some 2
        \<and> map_of (used (heap g ! 2)) 1 = Some ''used constant''
        \<and> map_of (used (heap g ! Root g)) 1 = Some ''used constant''
        \<and> \<not> seen (heap (color g (Root g)) ! 2)
        \<and> seen (heap (color g (Root g)) ! 1))
   \<and> (case Check 10 ex_tu cp_prog cp_job of
         Inl e \<Rightarrow> False
       | Inr out \<Rightarrow> map Obj out = [OFunc cp_fobj])"
  by code_simp

section \<open>The NoCopy sentinel rule\<close>

text \<open>
  Rule 4946 is a branch of \<open>structField\<close>, after the test for an exported name.  What
  follows is the run of \<open>structField\<close> on a field of the sentinel type.
\<close>

lemma use_known:
  assumes "nodeMaybe g a = Some u" "nodeMaybe g b = Some t"
    and "\<not> isIrrelevant a" "\<not> hasFuncValue g a" "\<not> hasFuncValue g b"
    and "\<not> foreign g a" "\<not> foreign g b" "a \<noteq> INil" "b \<noteq> INil"
  shows "use a b r g = Inr (add_edge g t u r)"
  using assms by (simp add: use_def node_old add_edge_def)

lemma add_edge_reason:
  "t < length (heap g) \<Longrightarrow> map_of (used (heap (add_edge g t u r) ! t)) u = Some r"
  by (simp add: add_edge_def Node_use_def update_conv)

lemma noCopy_relevant: "isNoCopyType T \<Longrightarrow> \<not> isIrrelevant (IType T)"
  by (auto simp: isNoCopyType_iff Dereference_def)

lemma noCopy_no_exported_field: "isNoCopyType T \<Longrightarrow> \<not> fst (hasExportedField [] T)"
  by (auto simp: isNoCopyType_iff Dereference_def)

lemma see_relevant:
  "\<not> isIrrelevant x \<Longrightarrow> x \<noteq> INil \<Longrightarrow> \<not> foreign g x \<Longrightarrow> see x g = Inr (snd (node g x))"
  by (simp add: see_def del: isIrrelevant.simps)

lemma use_again:
  assumes wf: "wf_graph g" and e: "(t, u) \<in> edges g"
    and r: "use a b r g = Inr g'"
  shows "(t, u) \<in> edges g'"
  using ext_edges[OF use_ext[OF r]] e by blast

text \<open>Rule 4946 on one field.\<close>

lemma structField_noCopy:
  assumes wf: "wf_graph g"
    and st: "nodeMaybe g (IType t) = Some s"
    and nc: "isNoCopyType (var_type f)"
    and ue: "\<not> IsExported (var_name f)"
    and loc: "\<not> foreign g (IObject (OVar f))"
  shows "\<exists>g' n. structField t f g = Inr g'
           \<and> nodeMaybe g' (IObject (OVar f)) = Some n
           \<and> nodeMaybe g' (IType t) = Some s
           \<and> (s, n) \<in> edges g'
           \<and> (\<not> Anonymous f \<longrightarrow> map_of (used (heap g' ! s)) n = Some ''NoCopy sentinel'')"
proof -
  let ?f = "IObject (OVar f)" and ?t = "IType t"
  have rel: "\<not> isIrrelevant ?f" using noCopy_relevant[OF nc] by simp
  obtain g1 where s1: "see ?f g = Inr g1" using see_relevant[OF rel _ loc] by simp
  have w1: "wf_graph g1" using wf s1 by (rule see_wf)
  have e1: "ext g g1" using s1 by (rule see_ext)
  from see_has[OF s1 rel loc] obtain n where n1: "nodeMaybe g1 ?f = Some n" by auto
  have t1: "nodeMaybe g1 ?t = Some s" using e1 st by (rule ext_nodeMaybe)
  have loc1: "\<not> foreign g1 ?f" using loc ext_foreign[OF e1] by simp
  have sl: "s < length (heap g1)" using w1 t1 by (rule wf_graph_nodeMaybe)
  have nl: "n < length (heap g1)" using w1 n1 by (rule wf_graph_nodeMaybe)
  have u: "use ?f ?t r g' = Inr (add_edge g' s n r)"
    if "nodeMaybe g' ?f = Some n" "nodeMaybe g' ?t = Some s" "\<not> foreign g' ?f" for g' r
    using that rel by (intro use_known) (simp_all add: hasFuncValue_def foreign_def del: isIrrelevant.simps)
  let ?g2 = "add_edge g1 s n ''NoCopy sentinel''"
  have w2: "wf_graph ?g2" using w1 sl nl by (rule add_edge_wf)
  have n2: "nodeMaybe ?g2 ?f = Some n" "nodeMaybe ?g2 ?t = Some s"
    using n1 t1 by (simp_all add: add_edge_fields)
  have loc2: "\<not> foreign ?g2 ?f" using loc1 by (simp add: foreign_def add_edge_fields)
  have ed2: "(s, n) \<in> edges ?g2" using sl by (rule add_edge_edge)
  have r2: "map_of (used (heap ?g2 ! s)) n = Some ''NoCopy sentinel''"
    using sl by (rule add_edge_reason)
  show ?thesis
  proof (cases "Anonymous f")
    case False
    have "structField t f g = Inr ?g2"
      using s1 ue nc False u[OF n1 t1 loc1] by (simp add: structField_def skip_def del: isIrrelevant.simps)
    then show ?thesis using n2 ed2 r2 by blast
  next
    case True
    let ?c = "list_ex (\<lambda>s. IsExported (func_name (sel_obj s))) (MethodSet (msCache ?g2) (var_type f))"
    let ?g3 = "if ?c then add_edge ?g2 s n ''extends exported method set'' else ?g2"
    have "structField t f g = Inr ?g3"
      using s1 ue nc True u[OF n1 t1 loc1] u[OF n2 loc2] noCopy_no_exported_field[OF nc]
      by (simp add: structField_def skip_def del: isIrrelevant.simps)
    moreover have "nodeMaybe ?g3 ?f = Some n" "nodeMaybe ?g3 ?t = Some s"
      using n2 by (simp_all add: add_edge_fields)
    moreover have "(s, n) \<in> edges ?g3"
      using ed2 ext_edges[OF add_edge_ext[of ?g2 s n "''extends exported method set''"]] by auto
    ultimately show ?thesis using True by blast
  qed
qed


definition nc_mu :: gvar where "nc_mu = NewVar ''mu'' (Some ''p'') 21 True False noCopy"
definition nc_Mu :: gvar where "nc_Mu = NewVar ''Mu'' (Some ''p'') 22 True False noCopy"
definition nc_t :: gtype where "nc_t = TStruct [nc_mu, nc_Mu]"

definition nc_graph :: graph where
  "nc_graph = projr (see (IType nc_t) (NewGraph ex_ssa ex_tu))"



end
